theory Spec2Isabelle
  imports Main "HOL-Library.Word"
begin

section \<open>Data model of the driver runner (driver\_runner.cc)\<close>

text \<open>
  Nodes, driver components and driver hosts live on the C++ heap and refer to each other by
  pointer.  The model keeps them in explicit stores indexed by addresses (natural numbers).
  A \<open>std::shared_ptr\<close>/raw pointer is an address; a \<open>std::weak_ptr\<close> is an address
  too, and \<open>lock()\<close> succeeds exactly when the store still holds an object there.
  An object that has been destroyed is absent from the store.
  Behaviour that C++ leaves undefined (dereferencing a null or dangling pointer, erasing
  \<open>end()\<close>, using an invalidated iterator) is a \<open>fault\<close> value.
\<close>

datatype fault = NullDeref | Dangling | EraseEnd | IterInvalid | OutOfFuel

datatype Collection = kNone | kHost | kBoot | kPackage

datatype NodeError =
    kNodeRemoved | kNameMissing | kNameInvalid | kNameAlreadyExists
  | kOfferSourceNameMissing | kOfferRefExists
  | kSymbolNameMissing | kSymbolAddressMissing | kSymbolAlreadyExists

datatype zx_status =
    ZX_OK | ZX_ERR_INVALID_ARGS | ZX_ERR_UNAVAILABLE | ZX_ERR_NEXT | ZX_ERR_PEER_CLOSED
  | ZX_ERR_OTHER nat

text \<open>\<open>fdecl::wire::Offer\<close>: a tagged union; every known variant is a table with the optional
  fields the runner reads or writes.\<close>

datatype OfferTag =
    kService | kProtocol | kDirectory | kStorage | kRunner | kResolver | kEvent | kUnknown

datatype Ref = WithChild string string | WithOther

record OfferDecl =
  source_name :: "string option"
  source :: "Ref option"
  target :: "Ref option"
  target_name :: "string option"

record Offer =
  tag :: OfferTag
  decl :: OfferDecl

record NodeSymbol =
  sym_name :: "string option"
  sym_address :: "64 word option"

record NodeProperty =
  prop_key :: "(32 word + string) option"
  prop_value :: "(32 word + string) option"

record NodeAddArgs =
  args_name :: "string option"
  args_offers :: "Offer list option"
  args_properties :: "NodeProperty list option"
  args_symbols :: "NodeSymbol list option"

record AddChildRequest =
  args :: NodeAddArgs
  node_is_valid :: bool

record Node =
  name :: string
  parents :: "nat list"
  children :: "nat list"
  driver_binder :: bool
  driver_host :: "nat option"
  driver_component :: "nat option"
  collection :: Collection
  removal_in_progress :: bool
  offers :: "Offer list"
  symbols :: "NodeSymbol list"
  properties :: "NodeProperty list"
  controller_ref :: bool
  node_ref :: bool

record DriverComponent =
  dc_node :: nat
  stop_in_progress :: bool
  stop_requests :: nat

type_synonym node_store = "nat \<Rightarrow> Node option"

text \<open>The runner: the node store with its allocation pointer, the driver components, and
  the registries of \<open>DriverRunner\<close>.  \<open>match_requests\<close> is the outbox of
  \<open>MatchDriver\<close> calls sent to the driver index, \<open>start_calls\<close> the log of
  \<open>StartDriver\<close> invocations and \<open>create_calls\<close> the \<open>CreateChild\<close> requests sent to
  the realm.  \<open>driver_args\<close> is the map from token koids to nodes.  \<open>node_servers\<close> are
  the nodes whose \<open>fdf::Node\<close> server binding exists: \<open>fidl::BindServer\<close> is given a
  \<open>shared_ptr\<close> to the node (lines 536 and 709) and keeps it until the binding has been
  torn down.\<close>

record runner =
  nodes :: node_store
  next_node :: nat
  drivers :: "nat \<Rightarrow> DriverComponent option"
  root_node :: nat
  orphaned_nodes :: "nat list"
  composite_args :: "(string \<times> nat option list) list"
  driver_args :: "nat \<Rightarrow> nat option"
  match_requests :: "(nat \<times> NodeAddArgs) list"
  start_calls :: "(nat \<times> string) list"
  create_calls :: "(string \<times> Collection \<times> string) list"
  next_driver :: nat
  driver_hosts :: "nat list"
  next_driver_host_id :: nat
  node_servers :: "nat set"

section \<open>Node construction and Node::AddChild\<close>

definition PrimaryParent :: "nat list \<Rightarrow> nat option" where
  "PrimaryParent ps = (if ps = [] then None else Some (ps ! 0))"

text \<open>\<open>Node::Node\<close>: the constructor reads the primary parent's \<open>driver_host\<close>.\<close>

definition new_Node :: "node_store \<Rightarrow> string \<Rightarrow> nat list \<Rightarrow> bool \<Rightarrow> fault + Node" where
  "new_Node h nm ps binder =
     (let n = \<lparr> name = nm, parents = ps, children = [], driver_binder = binder,
                driver_host = None, driver_component = None, collection = kNone,
                removal_in_progress = False, offers = [], symbols = [], properties = [],
                controller_ref = False, node_ref = False \<rparr>
      in case PrimaryParent ps of
           None \<Rightarrow> Inr n
         | Some p \<Rightarrow> (case h p of
                        None \<Rightarrow> Inl Dangling
                      | Some pn \<Rightarrow> Inr (n\<lparr>driver_host := driver_host pn\<rparr>)))"

definition VisitOffer :: "(OfferDecl \<Rightarrow> 'r) \<Rightarrow> Offer \<Rightarrow> 'r option" where
  "VisitOffer apply offer = (case tag offer of kUnknown \<Rightarrow> None | _ \<Rightarrow> Some (apply (decl offer)))"

definition value_or :: "'a option \<Rightarrow> 'a \<Rightarrow> 'a" where
  "value_or x d = (case x of None \<Rightarrow> d | Some v \<Rightarrow> v)"

text \<open>The sibling-name scan of AddChild (lines 452-459).\<close>

fun name_exists :: "node_store \<Rightarrow> string \<Rightarrow> nat list \<Rightarrow> fault + bool" where
  "name_exists h nm [] = Inr False"
| "name_exists h nm (c # cs) =
     (case h c of
        None \<Rightarrow> Inl Dangling
      | Some cn \<Rightarrow> if name cn = nm then Inr True else name_exists h nm cs)"

text \<open>The offer loop (lines 464-483); \<open>acc\<close> is \<open>child->offers\<close>.\<close>

fun add_offers :: "Offer list \<Rightarrow> Offer list \<Rightarrow> NodeError + Offer list" where
  "add_offers acc [] = Inr acc"
| "add_offers acc (offer # rest) =
     (if \<not> value_or (VisitOffer (\<lambda>d. source_name d \<noteq> None) offer) False
        then Inl kOfferSourceNameMissing
      else if value_or (VisitOffer (\<lambda>d. source d \<noteq> None \<or> target d \<noteq> None) offer) False
        then Inl kOfferRefExists
      else add_offers (acc @ [offer]) rest)"

text \<open>The property loop (lines 488-497): a field-by-field copy.\<close>

definition copy_property :: "NodeProperty \<Rightarrow> NodeProperty" where
  "copy_property p =
     (let np = \<lparr> prop_key = None, prop_value = None \<rparr>;
          np = (case prop_key p of None \<Rightarrow> np | Some k \<Rightarrow> np\<lparr>prop_key := Some k\<rparr>);
          np = (case prop_value p of None \<Rightarrow> np | Some v \<Rightarrow> np\<lparr>prop_value := Some v\<rparr>)
      in np)"

text \<open>The symbol loop (lines 503-529); \<open>names\<close> is the local set of names seen so far.\<close>

fun add_symbols :: "string list \<Rightarrow> NodeSymbol list \<Rightarrow> NodeSymbol list \<Rightarrow> NodeError + NodeSymbol list" where
  "add_symbols names acc [] = Inr acc"
| "add_symbols names acc (symbol # rest) =
     (case sym_name symbol of
        None \<Rightarrow> Inl kSymbolNameMissing
      | Some nm \<Rightarrow>
          (case sym_address symbol of
             None \<Rightarrow> Inl kSymbolAddressMissing
           | Some addr \<Rightarrow>
               if nm \<in> set names then Inl kSymbolAlreadyExists
               else add_symbols (nm # names)
                      (acc @ [\<lparr> sym_name = Some nm, sym_address = Some addr \<rparr>]) rest))"

text \<open>\<open>Node::AddToParents\<close>: push the node at the back of every parent's child list.\<close>

fun push_to_parents :: "nat \<Rightarrow> nat list \<Rightarrow> node_store \<Rightarrow> fault + node_store" where
  "push_to_parents this [] h = Inr h"
| "push_to_parents this (p # ps) h =
     (case h p of
        None \<Rightarrow> Inl Dangling
      | Some pn \<Rightarrow> push_to_parents this ps (h(p \<mapsto> pn\<lparr>children := children pn @ [this]\<rparr>)))"

definition AddToParents :: "nat \<Rightarrow> node_store \<Rightarrow> fault + node_store" where
  "AddToParents this h =
     (case h this of None \<Rightarrow> Inl Dangling | Some n \<Rightarrow> push_to_parents this (parents n) h)"

text \<open>
  \<open>Node::AddChild\<close>.  The reply is \<open>Inl\<close> of the error sent by \<open>ReplyError\<close> or
  \<open>Inr ()\<close> for \<open>ReplySuccess\<close>.  The child is built in a local \<open>shared_ptr\<close>; on an
  early return it is dropped, so the store only receives it on the success path, at the
  fresh address \<open>next_node\<close>.  \<open>Bind\<close> only sends the match request.
  \<open>AddChild_child\<close> is the part of the function from the construction of the child on
  (lines 460-546), \<open>AddChild\<close> the checks before it (lines 435-459).
\<close>

definition AddChild_child ::
  "nat \<Rightarrow> AddChildRequest \<Rightarrow> runner \<Rightarrow> string \<Rightarrow> fault + ((NodeError + unit) \<times> runner)" where
  "AddChild_child this request w nm =
     (case new_Node (nodes w) nm [this] True of
        Inl f \<Rightarrow> Inl f
      | Inr child \<Rightarrow>
         (case (case args_offers (args request) of
                  None \<Rightarrow> Inr []
                | Some os \<Rightarrow> add_offers [] os) of
            Inl e \<Rightarrow> Inr (Inl e, w)
          | Inr offs \<Rightarrow>
             (let props = (case args_properties (args request) of
                             None \<Rightarrow> []
                           | Some ps \<Rightarrow> map copy_property ps)
              in (case (case args_symbols (args request) of
                          None \<Rightarrow> Inr []
                        | Some ss \<Rightarrow> add_symbols [] [] ss) of
                    Inl e \<Rightarrow> Inr (Inl e, w)
                  | Inr syms \<Rightarrow>
                     (let child = child\<lparr>offers := offs, properties := props,
                                       symbols := syms, controller_ref := True\<rparr>;
                          c = next_node w;
                          child = (if node_is_valid request
                                   then child\<lparr>node_ref := True\<rparr> else child);
                          reqs = (if node_is_valid request then match_requests w
                                  else match_requests w @ [(c, args request)]);
                          h = (nodes w)(c \<mapsto> child)
                      in (case AddToParents c h of
                            Inl f \<Rightarrow> Inl f
                          | Inr h' \<Rightarrow>
                              Inr (Inr (), w\<lparr>nodes := h', next_node := Suc c,
                                             match_requests := reqs,
                                             node_servers :=
                                               (if node_is_valid request
                                                then insert c (node_servers w)
                                                else node_servers w)\<rparr>)))))))"

definition AddChild :: "nat \<Rightarrow> AddChildRequest \<Rightarrow> runner \<Rightarrow> fault + ((NodeError + unit) \<times> runner)" where
  "AddChild this request w =
     (case nodes w this of
        None \<Rightarrow> Inl Dangling
      | Some n \<Rightarrow>
         (if \<not> driver_binder n then Inr (Inl kNodeRemoved, w)
          else (case args_name (args request) of
            None \<Rightarrow> Inr (Inl kNameMissing, w)
          | Some nm \<Rightarrow>
             (if CHR ''.'' \<in> set nm then Inr (Inl kNameInvalid, w)
              else (case name_exists (nodes w) nm (children n) of
                Inl f \<Rightarrow> Inl f
              | Inr True \<Rightarrow> Inr (Inl kNameAlreadyExists, w)
              | Inr False \<Rightarrow> AddChild_child this request w nm)))))"

subsection \<open>Vocabulary for the validation outcomes of AddChild\<close>

text \<open>What the two offer tests of AddChild compute: \<open>VisitOffer\<close> yields no value on an
  unknown variant, and \<open>value_or(false)\<close> then reads it as "no source name" and "no
  reference".\<close>

definition offer_has_source_name :: "Offer \<Rightarrow> bool" where
  "offer_has_source_name offer = (tag offer \<noteq> kUnknown \<and> source_name (decl offer) \<noteq> None)"

definition offer_has_ref :: "Offer \<Rightarrow> bool" where
  "offer_has_ref offer =
     (tag offer \<noteq> kUnknown \<and> (source (decl offer) \<noteq> None \<or> target (decl offer) \<noteq> None))"

definition offer_accepted :: "Offer \<Rightarrow> bool" where
  "offer_accepted offer = (offer_has_source_name offer \<and> \<not> offer_has_ref offer)"

definition offers_accepted :: "Offer list option \<Rightarrow> bool" where
  "offers_accepted os = (case os of None \<Rightarrow> True | Some l \<Rightarrow> list_all offer_accepted l)"

definition symbol_complete :: "NodeSymbol \<Rightarrow> bool" where
  "symbol_complete s = (sym_name s \<noteq> None \<and> sym_address s \<noteq> None)"

definition child_names :: "node_store \<Rightarrow> nat list \<Rightarrow> string list" where
  "child_names h cs = concat (map (\<lambda>c. case h c of None \<Rightarrow> [] | Some cn \<Rightarrow> [name cn]) cs)"

text \<open>The request passes the four checks made before the child is constructed.\<close>

definition name_accepted :: "runner \<Rightarrow> Node \<Rightarrow> AddChildRequest \<Rightarrow> bool" where
  "name_accepted w n request =
     (driver_binder n \<and>
      (case args_name (args request) of
         None \<Rightarrow> False
       | Some nm \<Rightarrow> CHR ''.'' \<notin> set nm \<and> nm \<notin> set (child_names (nodes w) (children n))))"

section \<open>Node::symbols and DriverComponent::StopDriver\<close>

text \<open>\<open>Node::symbols\<close> (lines 279-290): the symbols are handed out only to a node that is
  colocated with its primary parent; a composite node hands out the primary parent's.\<close>

definition Node_symbols :: "node_store \<Rightarrow> nat \<Rightarrow> fault + NodeSymbol list" where
  "Node_symbols h this =
     (case h this of
        None \<Rightarrow> Inl Dangling
      | Some n \<Rightarrow>
         (case PrimaryParent (parents n) of
            None \<Rightarrow> Inr []
          | Some p \<Rightarrow>
             (case h p of
                None \<Rightarrow> Inl Dangling
              | Some pn \<Rightarrow>
                 if driver_host pn = driver_host n
                 then Inr (if 1 < length (parents n) then symbols pn else symbols n)
                 else Inr [])))"

text \<open>\<open>DriverComponent::StopDriver\<close> (lines 204-214).  \<open>stop_requests\<close> counts the
  \<open>Stop\<close> calls made on the driver channel; a failed send is only logged.\<close>

definition StopDriver :: "DriverComponent \<Rightarrow> DriverComponent" where
  "StopDriver d =
     (if stop_in_progress d then d
      else d\<lparr>stop_requests := Suc (stop_requests d), stop_in_progress := True\<rparr>)"

section \<open>TopoName, CreateOffers, CreateComponent and StartDriver\<close>

definition CollectionName :: "Collection \<Rightarrow> string" where
  "CollectionName c =
     (case c of kNone \<Rightarrow> [] | kHost \<Rightarrow> ''driver-hosts'' | kBoot \<Rightarrow> ''boot-drivers''
      | kPackage \<Rightarrow> ''pkg-drivers'')"

fun JoinStrings :: "string list \<Rightarrow> string \<Rightarrow> string" where
  "JoinStrings [] sep = []"
| "JoinStrings [x] sep = x"
| "JoinStrings (x # y # ys) sep = x @ sep @ JoinStrings (y # ys) sep"

text \<open>\<open>Node::TopoName\<close> (lines 312-318): the loop follows primary parents until the null
  pointer.  The store may hold any graph, so the loop is given fuel.\<close>

fun TopoName_loop :: "nat \<Rightarrow> node_store \<Rightarrow> nat option \<Rightarrow> string list \<Rightarrow> fault + string list" where
  "TopoName_loop f h None names = Inr names"
| "TopoName_loop 0 h (Some n) names = Inl OutOfFuel"
| "TopoName_loop (Suc f) h (Some n) names =
     (case h n of
        None \<Rightarrow> Inl Dangling
      | Some nd \<Rightarrow> TopoName_loop f h (PrimaryParent (parents nd)) (name nd # names))"

definition TopoName :: "nat \<Rightarrow> node_store \<Rightarrow> nat \<Rightarrow> fault + string" where
  "TopoName f h this =
     (case TopoName_loop f h (Some this) [] of
        Inl e \<Rightarrow> Inl e
      | Inr names \<Rightarrow> Inr (JoinStrings names ''.''))"

text \<open>
  The ancestor walk of \<open>CreateOffers\<close> (lines 325-328).  The loop condition is
  \<open>source_node->collection_ == Collection::kNone && source_node != nullptr\<close>: the pointer
  is dereferenced before it is compared with null, so reaching the null pointer is a null
  dereference, and the loop can only be left at a node whose collection is not none.
\<close>

fun find_source :: "nat \<Rightarrow> node_store \<Rightarrow> nat option \<Rightarrow> fault + nat" where
  "find_source f h None = Inl NullDeref"
| "find_source 0 h (Some n) = Inl OutOfFuel"
| "find_source (Suc f) h (Some n) =
     (case h n of
        None \<Rightarrow> Inl Dangling
      | Some nd \<Rightarrow>
          if collection nd = kNone then find_source f h (PrimaryParent (parents nd))
          else Inr n)"

text \<open>The visitor of lines 334-342 assigns the source of a known offer variant; an unknown
  variant is left as it is.\<close>

definition set_source :: "Ref \<Rightarrow> Offer \<Rightarrow> Offer" where
  "set_source r offer =
     (case tag offer of
        kUnknown \<Rightarrow> offer
      | _ \<Rightarrow> offer\<lparr>decl := (decl offer)\<lparr>source := Some r\<rparr>\<rparr>)"

text \<open>
  One round of the loop over \<open>parents_\<close> (lines 322-345).  The offers are those of the
  node itself when it has one parent and those of the parent otherwise; they are
  rewritten in place (\<open>offers()\<close> returns a mutable reference) and copied to the result.
  \<open>TopoName\<close> is only evaluated inside the visitor, that is when some offer has a known
  variant.
\<close>

definition offers_from_parent ::
  "nat \<Rightarrow> nat \<Rightarrow> nat \<Rightarrow> node_store \<Rightarrow> fault + (Offer list \<times> node_store)" where
  "offers_from_parent f this parent h =
     (case find_source f h (Some parent) of
        Inl e \<Rightarrow> Inl e
      | Inr src \<Rightarrow>
         (case (h this, h src) of
            (Some n, Some sn) \<Rightarrow>
              (let owner = (if length (parents n) = 1 then this else parent) in
               case h owner of
                 None \<Rightarrow> Inl Dangling
               | Some on \<Rightarrow>
                  if list_all (\<lambda>offer. tag offer = kUnknown) (offers on) then Inr (offers on, h)
                  else (case TopoName f h src of
                          Inl e \<Rightarrow> Inl e
                        | Inr nm \<Rightarrow>
                           (let r = WithChild nm (CollectionName (collection sn));
                                offs = map (set_source r) (offers on)
                            in Inr (offs, h(owner \<mapsto> on\<lparr>offers := offs\<rparr>)))))
          | _ \<Rightarrow> Inl Dangling))"

fun CreateOffers_loop ::
  "nat \<Rightarrow> nat \<Rightarrow> nat list \<Rightarrow> Offer list \<Rightarrow> node_store \<Rightarrow> fault + (Offer list \<times> node_store)" where
  "CreateOffers_loop f this [] node_offers h = Inr (node_offers, h)"
| "CreateOffers_loop f this (parent # ps) node_offers h =
     (case offers_from_parent f this parent h of
        Inl e \<Rightarrow> Inl e
      | Inr (offs, h') \<Rightarrow> CreateOffers_loop f this ps (node_offers @ offs) h')"

definition CreateOffers :: "nat \<Rightarrow> nat \<Rightarrow> node_store \<Rightarrow> fault + (Offer list \<times> node_store)" where
  "CreateOffers f this h =
     (case h this of
        None \<Rightarrow> Inl Dangling
      | Some n \<Rightarrow> CreateOffers_loop f this (parents n) [] h)"

text \<open>\<open>DriverRunner::CreateComponent\<close> (lines 907-964): builds the dynamic offers when a node
  is given and sends \<open>CreateChild\<close>; it always returns \<open>ok\<close>.\<close>

definition CreateComponent ::
  "nat \<Rightarrow> string \<Rightarrow> Collection \<Rightarrow> string \<Rightarrow> nat option \<Rightarrow> runner \<Rightarrow> fault + runner" where
  "CreateComponent f nm coll url opts_node w =
     (case (case opts_node of
              None \<Rightarrow> Inr (nodes w)
            | Some n \<Rightarrow> (case CreateOffers f n (nodes w) of
                           Inl e \<Rightarrow> Inl e
                         | Inr (offs, h) \<Rightarrow> Inr h)) of
        Inl e \<Rightarrow> Inl e
      | Inr h \<Rightarrow> Inr (w\<lparr>nodes := h, create_calls := create_calls w @ [(nm, coll, url)]\<rparr>))"

definition kBootScheme :: string where
  "kBootScheme = ''fuchsia-boot://''"

definition starts_with :: "string \<Rightarrow> string \<Rightarrow> bool" where
  "starts_with s pre = (take (length pre) s = pre)"

text \<open>The results of the kernel calls made by \<open>StartDriver\<close>: \<open>zx::event::create\<close> and
  \<open>get_info\<close>, which reports the koid of the new token.\<close>

record token_env =
  event_create :: zx_status
  token_info :: "zx_status + nat"

text \<open>\<open>DriverRunner::StartDriver\<close> (lines 624-644).\<close>

definition StartDriver ::
  "nat \<Rightarrow> token_env \<Rightarrow> nat \<Rightarrow> string \<Rightarrow> runner \<Rightarrow> fault + (zx_status \<times> runner)" where
  "StartDriver f env node url w0 =
     (let w = w0\<lparr>start_calls := start_calls w0 @ [(node, url)]\<rparr> in
      if event_create env \<noteq> ZX_OK then Inr (event_create env, w)
      else (case token_info env of
        Inl status \<Rightarrow> Inr (status, w)
      | Inr koid \<Rightarrow>
         (case nodes w node of
            None \<Rightarrow> Inl Dangling
          | Some n \<Rightarrow>
             (let coll = (if starts_with url kBootScheme then kBoot else kPackage);
                  w1 = w\<lparr>nodes := (nodes w)(node \<mapsto> n\<lparr>collection := coll\<rparr>)\<rparr>
              in (case TopoName f (nodes w1) node of
                    Inl e \<Rightarrow> Inl e
                  | Inr nm \<Rightarrow>
                     (case CreateComponent f nm coll url (Some node) w1 of
                        Inl e \<Rightarrow> Inl e
                      | Inr w2 \<Rightarrow>
                          Inr (ZX_OK, w2\<lparr>driver_args :=
                                 (if driver_args w2 koid = None
                                  then (driver_args w2)(koid \<mapsto> node)
                                  else driver_args w2)\<rparr>)))))))"

section \<open>DriverRunner::StartDriverHost and DriverRunner::Start\<close>

definition digit_char :: "nat \<Rightarrow> char" where
  "digit_char d = char_of (48 + d)"

function to_string :: "nat \<Rightarrow> string" where
  "to_string n = (if n < 10 then [digit_char n] else to_string (n div 10) @ [digit_char (n mod 10)])"
  by pat_completeness auto
termination
  by (relation "measure id") auto

record HandleInfo =
  handle_valid :: bool
  handle_koid :: "zx_status + nat"
  handle_id :: "32 word"

text \<open>The fields of the start info that \<open>Start\<close> reads; \<open>colocate\<close> is the test
  \<open>ProgramValue(program, "colocate").value_or("") == "true"\<close>.\<close>

record ComponentStartInfo =
  resolved_url :: string
  numbered_handles :: "HandleInfo list option"
  colocate :: bool

text \<open>Results of the external calls of \<open>Start\<close> and \<open>StartDriverHost\<close>; \<open>None\<close> is success.\<close>

record start_env =
  host_endpoints :: "zx_status option"
  host_connect :: "zx_status option"
  node_endpoints :: "zx_status option"
  host_start :: "zx_status option"

text \<open>\<open>DriverRunner::StartDriverHost\<close> (lines 883-905); the new host is addressed by its id.\<close>

definition StartDriverHost :: "start_env \<Rightarrow> runner \<Rightarrow> fault + ((zx_status + nat) \<times> runner)" where
  "StartDriverHost env w =
     (case host_endpoints env of
        Some e \<Rightarrow> Inr (Inl e, w)
      | None \<Rightarrow>
         (let hid = next_driver_host_id w;
              w1 = w\<lparr>next_driver_host_id := Suc hid\<rparr>
          in case CreateComponent 0 (''driver-host-'' @ to_string hid) kHost
                    ''#meta/driver_host2.cm'' None w1 of
               Inl e \<Rightarrow> Inl e
             | Inr w2 \<Rightarrow>
                (case host_connect env of
                   Some e \<Rightarrow> Inr (Inl e, w2)
                 | None \<Rightarrow> Inr (Inr hid, w2))))"

text \<open>
  The tail of \<open>Start\<close> (lines 703-730): bind the node, start the driver in the node's host and
  create the DriverComponent.  \<open>node.driver_host()\<close> dereferences the optional
  \<open>driver_host_\<close>.
\<close>

definition Start_driver :: "start_env \<Rightarrow> nat \<Rightarrow> runner \<Rightarrow> fault + (zx_status option \<times> runner)" where
  "Start_driver env node w =
     (case node_endpoints env of
        Some e \<Rightarrow> Inr (Some e, w)
      | None \<Rightarrow>
         (case nodes w node of
            None \<Rightarrow> Inl Dangling
          | Some n \<Rightarrow>
             (let w1 = w\<lparr>nodes := (nodes w)(node \<mapsto> n\<lparr>node_ref := True\<rparr>),
                         node_servers := insert node (node_servers w)\<rparr> in
              case driver_host n of
                None \<Rightarrow> Inl NullDeref
              | Some host \<Rightarrow>
                 (case host_start env of
                    Some e \<Rightarrow> Inr (Some e, w1)
                  | None \<Rightarrow>
                     (let d = next_driver w1;
                          dc = \<lparr> dc_node = node, stop_in_progress = False, stop_requests = 0 \<rparr>
                      in Inr (None,
                           w1\<lparr>nodes := (nodes w1)(node \<mapsto>
                                  n\<lparr>node_ref := True, driver_component := Some d\<rparr>),
                               drivers := (drivers w1)(d \<mapsto> dc),
                               next_driver := Suc d\<rparr>))))))"

text \<open>
  \<open>DriverRunner::Start\<close> (lines 646-731).  The result is the epitaph passed to
  \<open>completer.Close\<close>, or \<open>None\<close> when the connection stays open.  \<open>kTokenId\<close> is the
  constant \<open>PA_HND(PA_USER0, 0)\<close>, whose macro is defined outside this file; it is a
  parameter.
\<close>

definition Start ::
  "32 word \<Rightarrow> start_env \<Rightarrow> ComponentStartInfo \<Rightarrow> runner \<Rightarrow> fault + (zx_status option \<times> runner)" where
  "Start kTokenId env start_info w =
     (case numbered_handles start_info of
        None \<Rightarrow> Inr (Some ZX_ERR_INVALID_ARGS, w)
      | Some handles \<Rightarrow>
         (if length handles \<noteq> 1 \<or> \<not> handle_valid (handles ! 0) \<or>
             handle_id (handles ! 0) \<noteq> kTokenId
          then Inr (Some ZX_ERR_INVALID_ARGS, w)
          else (case handle_koid (handles ! 0) of
            Inl status \<Rightarrow> Inr (Some ZX_ERR_INVALID_ARGS, w)
          | Inr koid \<Rightarrow>
             (case driver_args w koid of
                None \<Rightarrow> Inr (Some ZX_ERR_UNAVAILABLE, w)
              | Some node \<Rightarrow>
                 (let w1 = w\<lparr>driver_args := (driver_args w)(koid := None)\<rparr> in
                  if colocate start_info then
                    (if node = root_node w1 then Inr (Some ZX_ERR_INVALID_ARGS, w1)
                     else Start_driver env node w1)
                  else
                    (case StartDriverHost env w1 of
                       Inl e \<Rightarrow> Inl e
                     | Inr (Inl status, w2) \<Rightarrow> Inr (Some status, w2)
                     | Inr (Inr host, w2) \<Rightarrow>
                        (case nodes w2 node of
                           None \<Rightarrow> Inl Dangling
                         | Some n \<Rightarrow>
                            Start_driver env node
                              (w2\<lparr>nodes := (nodes w2)(node \<mapsto> n\<lparr>driver_host := Some host\<rparr>),
                                  driver_hosts := driver_hosts w2 @ [host]\<rparr>))))))))"

section \<open>Composite matching and DriverRunner::Bind\<close>

record MatchedDriverInfo =
  info_url :: "string option"

record MatchedCompositeInfo =
  node_index :: "nat option"
  num_nodes :: "nat option"
  driver_info :: "MatchedDriverInfo option"

text \<open>A slot of a pending composite is a \<open>std::weak_ptr<Node>\<close>: empty, or the address of a
  node that may have been freed since.\<close>

definition expired :: "node_store \<Rightarrow> nat option \<Rightarrow> bool" where
  "expired h wp = (case wp of None \<Rightarrow> True | Some a \<Rightarrow> h a = None)"

definition lock :: "node_store \<Rightarrow> nat option \<Rightarrow> nat option" where
  "lock h wp = (case wp of None \<Rightarrow> None | Some a \<Rightarrow> if h a = None then None else Some a)"

text \<open>
  The search of \<open>AddToCompositeArgs\<close> (lines 865-875) through the entries of the multimap
  with the given url; \<open>i\<close> is the position of the entry.  The multimap is kept as a list
  of entries, entries with equal keys in insertion order.
\<close>

fun find_args ::
  "node_store \<Rightarrow> string \<Rightarrow> nat \<Rightarrow> nat \<Rightarrow> (string \<times> nat option list) list \<Rightarrow> nat \<Rightarrow> zx_status + nat option" where
  "find_args h u idx num [] i = Inr None"
| "find_args h u idx num ((k, slots) # rest) i =
     (if k \<noteq> u then find_args h u idx num rest (Suc i)
      else if length slots \<noteq> num then Inl ZX_ERR_INVALID_ARGS
      else if expired h (slots ! idx) then Inr (Some i)
      else find_args h u idx num rest (Suc i))"

text \<open>
  Line 860 takes \<open>url().get().data()\<close>, a \<open>const char*\<close>: the key that \<open>equal_range\<close> and
  \<open>emplace\<close> build from it is the C string at that address, which ends at the first NUL
  character.  A url without a NUL character is taken whole: the model has a NUL character
  right behind the bytes of the url.
\<close>

definition c_str :: "string \<Rightarrow> string" where
  "c_str s = takeWhile (\<lambda>ch. ch \<noteq> CHR 0x00) s"

text \<open>\<open>DriverRunner::AddToCompositeArgs\<close> (lines 844-881): the result is the position of the
  entry to use.\<close>

definition AddToCompositeArgs :: "MatchedCompositeInfo \<Rightarrow> runner \<Rightarrow> zx_status + (nat \<times> runner)" where
  "AddToCompositeArgs composite_info w =
     (case (node_index composite_info, num_nodes composite_info) of
        (Some idx, Some num) \<Rightarrow>
          (if idx \<ge> num then Inl ZX_ERR_INVALID_ARGS
           else (case driver_info composite_info of
             None \<Rightarrow> Inl ZX_ERR_INVALID_ARGS
           | Some di \<Rightarrow>
              (case info_url di of
                 None \<Rightarrow> Inl ZX_ERR_INVALID_ARGS
               | Some u \<Rightarrow>
                  (case find_args (nodes w) (c_str u) idx num (composite_args w) 0 of
                     Inl e \<Rightarrow> Inl e
                   | Inr (Some i) \<Rightarrow> Inr (i, w)
                   | Inr None \<Rightarrow>
                       Inr (length (composite_args w),
                            w\<lparr>composite_args :=
                                composite_args w @ [(c_str u, replicate num None)]\<rparr>)))))
      | _ \<Rightarrow> Inl ZX_ERR_INVALID_ARGS)"

text \<open>The scan of the slots (lines 827-834): the locked nodes in slot order, or nothing when
  a slot does not resolve.\<close>

fun collect_parents :: "node_store \<Rightarrow> nat option list \<Rightarrow> nat list \<Rightarrow> nat list option" where
  "collect_parents h [] ps = Some ps"
| "collect_parents h (wp # rest) ps =
     (case lock h wp of
        Some a \<Rightarrow> collect_parents h rest (ps @ [a])
      | None \<Rightarrow> None)"

text \<open>\<open>DriverRunner::CreateCompositeNode\<close> (lines 814-842).\<close>

definition CreateCompositeNode ::
  "nat \<Rightarrow> MatchedCompositeInfo \<Rightarrow> runner \<Rightarrow> fault + ((zx_status + nat) \<times> runner)" where
  "CreateCompositeNode node matched_driver w =
     (case AddToCompositeArgs matched_driver w of
        Inl e \<Rightarrow> Inr (Inl e, w\<lparr>orphaned_nodes := orphaned_nodes w @ [node]\<rparr>)
      | Inr (i, w1) \<Rightarrow>
         (case node_index matched_driver of
            None \<Rightarrow> Inl NullDeref
          | Some idx \<Rightarrow>
             (let ca = composite_args w1;
                  slots = (snd (ca ! i))[idx := Some node];
                  w2 = w1\<lparr>composite_args := ca[i := (fst (ca ! i), slots)]\<rparr>
              in case collect_parents (nodes w2) slots [] of
                   None \<Rightarrow> Inr (Inl ZX_ERR_NEXT, w2)
                 | Some ps \<Rightarrow>
                    (let w3 = w2\<lparr>composite_args := take i ca @ drop (Suc i) ca\<rparr> in
                     case new_Node (nodes w3) ''composite'' ps True of
                       Inl f \<Rightarrow> Inl f
                     | Inr composite \<Rightarrow>
                        (let c = next_node w3 in
                         case AddToParents c ((nodes w3)(c \<mapsto> composite)) of
                           Inl f \<Rightarrow> Inl f
                         | Inr h \<Rightarrow> Inr (Inr c, w3\<lparr>nodes := h, next_node := Suc c\<rparr>))))))"

datatype MatchedDriver =
    Driver MatchedDriverInfo | CompositeDriver MatchedCompositeInfo | OtherDriver

text \<open>What the match callback receives: a transport failure, an error from the driver
  index, or a response.\<close>

datatype match_result = TransportError | MatchError zx_status | MatchResponse MatchedDriver

definition orphaned :: "nat \<Rightarrow> runner \<Rightarrow> runner" where
  "orphaned driver_node w = w\<lparr>orphaned_nodes := orphaned_nodes w @ [driver_node]\<rparr>"

text \<open>Lines 803-809: start the driver of \<open>driver_node\<close>; a failure orphans it.  \<open>OnBind\<close>
  only sends an event to the node controller.\<close>

definition start_matched ::
  "nat \<Rightarrow> token_env \<Rightarrow> nat \<Rightarrow> string \<Rightarrow> runner \<Rightarrow> fault + runner" where
  "start_matched f env driver_node u w =
     (case StartDriver f env driver_node u w of
        Inl e \<Rightarrow> Inl e
      | Inr (status, w1) \<Rightarrow> Inr (if status \<noteq> ZX_OK then orphaned driver_node w1 else w1))"

text \<open>The match callback of \<open>DriverRunner::Bind\<close> (lines 734-810), run when the driver index
  answers.  It returns nothing to anybody: its only result is the new runner state.\<close>

definition match_callback ::
  "nat \<Rightarrow> token_env \<Rightarrow> nat \<Rightarrow> match_result \<Rightarrow> runner \<Rightarrow> fault + runner" where
  "match_callback f env node result w =
     (case nodes w node of
        None \<Rightarrow> Inr w
      | Some n \<Rightarrow>
         (case result of
            TransportError \<Rightarrow> Inr (orphaned node w)
          | MatchError status \<Rightarrow> Inr (orphaned node w)
          | MatchResponse matched_driver \<Rightarrow>
             (case matched_driver of
                OtherDriver \<Rightarrow> Inr (orphaned node w)
              | Driver di \<Rightarrow>
                 (case info_url di of
                    None \<Rightarrow> Inr (orphaned node w)
                  | Some u \<Rightarrow> start_matched f env node u w)
              | CompositeDriver ci \<Rightarrow>
                 (case driver_info ci of
                    None \<Rightarrow> Inr (orphaned node w)
                  | Some di \<Rightarrow>
                     (case info_url di of
                        None \<Rightarrow> Inr (orphaned node w)
                      | Some u \<Rightarrow>
                         (case CreateCompositeNode node ci w of
                            Inl e \<Rightarrow> Inl e
                          | Inr (Inl status, w1) \<Rightarrow> Inr w1
                          | Inr (Inr composite, w1) \<Rightarrow> start_matched f env composite u w1))))))"

text \<open>\<open>DriverRunner::Bind\<close> itself (line 811) only sends the match request.\<close>

definition Bind :: "nat \<Rightarrow> NodeAddArgs \<Rightarrow> runner \<Rightarrow> runner" where
  "Bind node add_args w = w\<lparr>match_requests := match_requests w @ [(node, add_args)]\<rparr>"

section \<open>Node::Remove\<close>

subsection \<open>Who holds a node\<close>

text \<open>
  A node lives as long as a \<open>shared_ptr\<close> to it exists.  Outside the frames of running
  functions these are: \<open>DriverRunner::root_node_\<close>; the entries of the \<open>children_\<close> list of
  each living parent (line 375); the \<open>fdf::Node\<close> server binding of the node (lines 536 and
  709); and the node pointer of a driver component (\<open>set_node(node.shared_from_this())\<close>,
  line 729).  The NodeController binding (line 532) and \<open>parents_\<close> hold plain pointers.
  Nodes are allocated below \<open>next_node\<close> and driver components below \<open>next_driver\<close>.
\<close>

definition holds_child :: "runner \<Rightarrow> nat \<Rightarrow> nat \<Rightarrow> bool" where
  "holds_child w x p = (case nodes w p of None \<Rightarrow> False | Some pn \<Rightarrow> x \<in> set (children pn))"

definition holds_node :: "runner \<Rightarrow> nat \<Rightarrow> nat \<Rightarrow> bool" where
  "holds_node w x d = (case drivers w d of None \<Rightarrow> False | Some dc \<Rightarrow> dc_node dc = x)"

definition owned :: "runner \<Rightarrow> nat \<Rightarrow> bool" where
  "owned w x =
     (x = root_node w \<or> x \<in> node_servers w \<or>
      list_ex (holds_child w x) [0..<next_node w] \<or>
      list_ex (holds_node w x) [0..<next_driver w])"

text \<open>
  \<open>release x\<close> is the end of a \<open>shared_ptr\<close> to \<open>x\<close> that the state does not record (a local
  variable, or a holder that the caller has just taken out of the state).  If nothing else
  holds the node, the node is destroyed: it leaves the store, and \<open>~Node\<close> destroys its
  \<open>children_\<close> list, which releases each child in turn.
\<close>

fun release :: "nat \<Rightarrow> nat \<Rightarrow> runner \<Rightarrow> fault + runner"
and release_all :: "nat \<Rightarrow> nat list \<Rightarrow> runner \<Rightarrow> fault + runner" where
  "release f x w =
     (if owned w x then Inr w
      else (case nodes w x of
              None \<Rightarrow> Inr w
            | Some n \<Rightarrow> release_all f (children n) (w\<lparr>nodes := (nodes w)(x := None)\<rparr>)))"
| "release_all f [] w = Inr w"
| "release_all 0 (c # cs) w = Inl OutOfFuel"
| "release_all (Suc f) (c # cs) w =
     (case release f c w of
        Inl e \<Rightarrow> Inl e
      | Inr w1 \<Rightarrow> release_all f cs w1)"

subsection \<open>Remove\<close>

text \<open>
  \<open>Remove\<close> calls itself on children and on parents, through whatever graph the store
  holds, so the model takes fuel.  It returns the new state and the trace of what the call
  did: \<open>Enter x\<close> is an entry into \<open>Remove\<close> on node \<open>x\<close> (line 380), \<open>Unlink c p\<close> the
  erasure of \<open>c\<close> from the children of \<open>p\<close> (line 414), and \<open>StopSent d\<close> a \<open>Stop\<close> request
  sent to driver \<open>d\<close> (line 209).  A fault ends the run.
\<close>

datatype event = Enter nat | Unlink nat nat | StopSent nat

text \<open>Lines 380-384, line 414 and lines 424-429.\<close>

definition begin_removal :: "nat \<Rightarrow> Node \<Rightarrow> runner \<Rightarrow> runner" where
  "begin_removal this n w =
     w\<lparr>nodes := (nodes w)(this \<mapsto> n\<lparr>removal_in_progress := True, driver_binder := False\<rparr>)\<rparr>"

definition erase_child :: "nat \<Rightarrow> nat \<Rightarrow> Node \<Rightarrow> runner \<Rightarrow> runner" where
  "erase_child this p pn w =
     w\<lparr>nodes := (nodes w)(p \<mapsto> pn\<lparr>children := remove1 this (children pn)\<rparr>)\<rparr>"

definition finish_removal :: "nat \<Rightarrow> Node \<Rightarrow> runner \<Rightarrow> runner" where
  "finish_removal this n w =
     w\<lparr>nodes := (nodes w)(this \<mapsto> n\<lparr>parents := [], controller_ref := False,
                                     node_ref := False\<rparr>)\<rparr>"

text \<open>
  The iterator of the loop at lines 387-393 was advanced before the child's \<open>Remove\<close> ran.
  It stays valid if the element it points to (the head of \<open>rest\<close>) is still in the list,
  and the loop goes on from there; the end iterator is always valid.  Positions are
  identified by the element, which is exact for a list without duplicates.
\<close>

definition resume :: "nat list \<Rightarrow> nat list \<Rightarrow> fault + nat list" where
  "resume rest cur =
     (case rest of
        [] \<Rightarrow> Inr []
      | e # _ \<Rightarrow> if e \<in> set cur then Inr (dropWhile (\<lambda>x. x \<noteq> e) cur) else Inl IterInvalid)"

text \<open>
  \<open>remove_children\<close> is the loop at lines 387-393 and \<open>unlink_parents\<close> the loop at lines
  412-422 over \<open>parents_\<close>.

  The frame of \<open>Remove\<close> holds no \<open>shared_ptr\<close> to its node before line 411: the caller
  passed a plain pointer (\<open>it->get()\<close> at line 390, \<open>parent\<close> at line 420).  If a nested
  call destroys the node, the loop test at line 387 and the test at line 397 read a
  destroyed object: \<open>Dangling\<close>.  From line 411 on the frame holds \<open>this_node\<close>, which is
  released when the frame ends (line 430).  The state does not record the \<open>this_node\<close>
  pointers of the running frames.  When a nested call completes the removal of the very
  node whose loop at lines 412-422 is running, \<open>release\<close> may therefore take the node out
  of the store although the running frame still holds it.  That nested call has cleared
  \<open>parents_\<close> (line 424), which invalidates the iterators of the range-for over
  \<open>parents_\<close>: the running frame reports \<open>IterInvalid\<close>, whether it finds the node in the
  store with another parent list or not at all.  Erasing a node that is not in the
  parent's list is \<open>erase(end())\<close>: \<open>EraseEnd\<close>.  The parent pointers are plain
  pointers: a destroyed parent is \<open>Dangling\<close>.

  \<open>UnbindAndReset(node_ref_)\<close> (line 429) starts the teardown of the \<open>fdf::Node\<close> server
  binding; the binding gives up its \<open>shared_ptr\<close> when the teardown has completed, which is
  \<open>Node_unbound\<close> below.
\<close>

fun Remove :: "nat \<Rightarrow> nat \<Rightarrow> runner \<Rightarrow> fault + (runner \<times> event list)"
and remove_children :: "nat \<Rightarrow> nat \<Rightarrow> nat list \<Rightarrow> runner \<Rightarrow> fault + (runner \<times> event list)"
and unlink_parents :: "nat \<Rightarrow> nat \<Rightarrow> nat list \<Rightarrow> runner \<Rightarrow> fault + (runner \<times> event list)" where
  "Remove 0 this w = Inl OutOfFuel"
| "Remove (Suc f) this w =
     (case nodes w this of
        None \<Rightarrow> Inl Dangling
      | Some n \<Rightarrow>
         (case remove_children f this (children n) (begin_removal this n w) of
            Inl e \<Rightarrow> Inl e
          | Inr (w2, ev1) \<Rightarrow>
             (case nodes w2 this of
                None \<Rightarrow> Inl Dangling
              | Some n2 \<Rightarrow>
                 (if children n2 \<noteq> [] then Inr (w2, Enter this # ev1)
                  else (case driver_component n2 of
                     Some d \<Rightarrow>
                       (case drivers w2 d of
                          None \<Rightarrow> Inl Dangling
                        | Some dc \<Rightarrow>
                            Inr (w2\<lparr>drivers := (drivers w2)(d \<mapsto> StopDriver dc)\<rparr>,
                                 Enter this # ev1 @
                                   (if stop_in_progress dc then [] else [StopSent d])))
                   | None \<Rightarrow>
                       (case unlink_parents f this (parents n2) w2 of
                          Inl e \<Rightarrow> Inl e
                        | Inr (w3, ev2) \<Rightarrow>
                           (case nodes w3 this of
                              None \<Rightarrow> Inl IterInvalid
                            | Some n3 \<Rightarrow>
                               (case release f this (finish_removal this n3 w3) of
                                  Inl e \<Rightarrow> Inl e
                                | Inr w4 \<Rightarrow> Inr (w4, Enter this # ev1 @ ev2)))))))))"
| "remove_children f this [] w = Inr (w, [])"
| "remove_children 0 this (c # rest) w = Inl OutOfFuel"
| "remove_children (Suc f) this (c # rest) w =
     (case Remove f c w of
        Inl e \<Rightarrow> Inl e
      | Inr (w1, ev1) \<Rightarrow>
         (case nodes w1 this of
            None \<Rightarrow> Inl Dangling
          | Some n1 \<Rightarrow>
             (case resume rest (children n1) of
                Inl e \<Rightarrow> Inl e
              | Inr rest' \<Rightarrow>
                 (case remove_children f this rest' w1 of
                    Inl e \<Rightarrow> Inl e
                  | Inr (w2, ev2) \<Rightarrow> Inr (w2, ev1 @ ev2)))))"
| "unlink_parents f this [] w = Inr (w, [])"
| "unlink_parents 0 this (p # ps) w = Inl OutOfFuel"
| "unlink_parents (Suc f) this (p # ps) w =
     (case nodes w this of
        None \<Rightarrow> Inl IterInvalid
      | Some n \<Rightarrow>
         (case nodes w p of
            None \<Rightarrow> Inl Dangling
          | Some pn \<Rightarrow>
             (if this \<notin> set (children pn) then Inl EraseEnd
              else if (removal_in_progress pn \<and> remove1 this (children pn) = []) \<or>
                      1 < length (parents n)
              then
                (case Remove f p (erase_child this p pn w) of
                   Inl e \<Rightarrow> Inl e
                 | Inr (w2, ev1) \<Rightarrow>
                    (case nodes w2 this of
                       None \<Rightarrow> Inl IterInvalid
                     | Some n2 \<Rightarrow>
                        (if parents n2 \<noteq> parents n then Inl IterInvalid
                         else (case unlink_parents f this ps w2 of
                            Inl e \<Rightarrow> Inl e
                          | Inr (w3, ev2) \<Rightarrow> Inr (w3, Unlink this p # ev1 @ ev2)))))
              else
                (case unlink_parents f this ps (erase_child this p pn w) of
                   Inl e \<Rightarrow> Inl e
                 | Inr (w3, ev2) \<Rightarrow> Inr (w3, Unlink this p # ev2)))))"

text \<open>
  \<open>DriverComponent::~DriverComponent\<close> (lines 166-169), the way a stopped driver comes
  back to its node.  The component's node pointer is destroyed after the body of the
  destructor has run.
\<close>

definition DriverComponent_dtor :: "nat \<Rightarrow> nat \<Rightarrow> runner \<Rightarrow> fault + (runner \<times> event list)" where
  "DriverComponent_dtor f d w =
     (case drivers w d of
        None \<Rightarrow> Inl Dangling
      | Some dc \<Rightarrow>
         (case nodes w (dc_node dc) of
            None \<Rightarrow> Inl Dangling
          | Some n \<Rightarrow>
             (case Remove f (dc_node dc)
                     (w\<lparr>nodes := (nodes w)(dc_node dc \<mapsto> n\<lparr>driver_component := None\<rparr>)\<rparr>) of
                Inl e \<Rightarrow> Inl e
              | Inr (w1, ev) \<Rightarrow>
                 (case release f (dc_node dc) (w1\<lparr>drivers := (drivers w1)(d := None)\<rparr>) of
                    Inl e \<Rightarrow> Inl e
                  | Inr w2 \<Rightarrow> Inr (w2, ev)))))"

text \<open>
  The teardown of the \<open>fdf::Node\<close> server binding of a node has completed: the unbound hook
  given to \<open>BindServer\<close> (lines 538 and 711) calls \<open>Remove\<close>, and then the binding
  is destroyed with its \<open>shared_ptr\<close>.  Without such a binding there is nothing to run.
\<close>

definition Node_unbound :: "nat \<Rightarrow> nat \<Rightarrow> runner \<Rightarrow> fault + (runner \<times> event list)" where
  "Node_unbound f x w =
     (if x \<notin> node_servers w then Inl Dangling
      else (case Remove f x w of
              Inl e \<Rightarrow> Inl e
            | Inr (w1, ev) \<Rightarrow>
               (case release f x (w1\<lparr>node_servers := node_servers w1 - {x}\<rparr>) of
                  Inl e \<Rightarrow> Inl e
                | Inr w2 \<Rightarrow> Inr (w2, ev))))"

text \<open>What may happen to a topology in teardown: somebody calls \<open>Remove\<close> on a node (the
  node controller, a driver that asks to be stopped), a driver has stopped and its component
  is destroyed, or the server binding of a node has been torn down.\<close>

datatype action = CallRemove nat | DriverStopped nat | NodeUnbound nat

fun run :: "nat \<Rightarrow> action list \<Rightarrow> runner \<Rightarrow> fault + (runner \<times> event list)" where
  "run f [] w = Inr (w, [])"
| "run f (a # acts) w =
     (case (case a of
              CallRemove x \<Rightarrow> Remove f x w
            | DriverStopped d \<Rightarrow> DriverComponent_dtor f d w
            | NodeUnbound x \<Rightarrow> Node_unbound f x w) of
        Inl e \<Rightarrow> Inl e
      | Inr (w1, e1) \<Rightarrow>
         (case run f acts w1 of
            Inl e \<Rightarrow> Inl e
          | Inr (w2, e2) \<Rightarrow> Inr (w2, e1 @ e2)))"

subsection \<open>Stop requests in a trace\<close>

fun stops_of :: "nat \<Rightarrow> event list \<Rightarrow> nat" where
  "stops_of d [] = 0"
| "stops_of d (StopSent d' # ev) = (if d' = d then Suc (stops_of d ev) else stops_of d ev)"
| "stops_of d (Unlink c p # ev) = stops_of d ev"
| "stops_of d (Enter x # ev) = stops_of d ev"

text \<open>A driver component may be destroyed; while it lives, a stop in progress stays in
  progress.  A \<open>Stop\<close> request is sent to it at most once, never when a stop is already in
  progress, and leaves the stop in progress.\<close>

definition driver_rel :: "DriverComponent option \<Rightarrow> nat \<Rightarrow> DriverComponent option \<Rightarrow> bool" where
  "driver_rel dco k dco' =
     (case dco of
        None \<Rightarrow> dco' = None \<and> k = 0
      | Some dc \<Rightarrow>
          k \<le> 1 \<and> (stop_in_progress dc \<longrightarrow> k = 0) \<and>
          (case dco' of
             None \<Rightarrow> True
           | Some dc' \<Rightarrow> (stop_in_progress dc \<longrightarrow> stop_in_progress dc') \<and>
                        (0 < k \<longrightarrow> stop_in_progress dc')))"

definition drel :: "runner \<Rightarrow> event list \<Rightarrow> runner \<Rightarrow> bool" where
  "drel w ev w' = (\<forall>d. driver_rel (drivers w d) (stops_of d ev) (drivers w' d))"

section \<open>Example topologies\<close>

definition mk_node :: "string \<Rightarrow> nat list \<Rightarrow> nat list \<Rightarrow> Node" where
  "mk_node nm ps cs =
     \<lparr> name = nm, parents = ps, children = cs, driver_binder = True,
       driver_host = None, driver_component = None, collection = kNone,
       removal_in_progress = False, offers = [], symbols = [], properties = [],
       controller_ref = False, node_ref = False \<rparr>"

definition mk_runner :: "node_store \<Rightarrow> nat \<Rightarrow> runner" where
  "mk_runner h nxt =
     \<lparr> nodes = h, next_node = nxt, drivers = Map.empty, root_node = 0,
       orphaned_nodes = [], composite_args = [], driver_args = Map.empty,
       match_requests = [], start_calls = [], create_calls = [], next_driver = 0,
       driver_hosts = [], next_driver_host_id = 0, node_servers = {} \<rparr>"

text \<open>A root with one child "disk", and a node "gone" whose removal has started.\<close>

definition ex_runner :: runner where
  "ex_runner = mk_runner
     [0 \<mapsto> mk_node ''root'' [] [1],
      1 \<mapsto> mk_node ''disk'' [0] [],
      2 \<mapsto> (mk_node ''gone'' [] [])\<lparr>driver_binder := False, removal_in_progress := True\<rparr>] 3"

definition mk_request :: "string option \<Rightarrow> Offer list option \<Rightarrow> NodeSymbol list option \<Rightarrow> AddChildRequest" where
  "mk_request nm os ss =
     \<lparr> args = \<lparr> args_name = nm, args_offers = os, args_properties = None, args_symbols = ss \<rparr>,
       node_is_valid = False \<rparr>"

definition mk_offer :: "OfferTag \<Rightarrow> string option \<Rightarrow> Ref option \<Rightarrow> Offer" where
  "mk_offer t sn src =
     \<lparr> tag = t, decl = \<lparr> source_name = sn, source = src, target = None, target_name = None \<rparr> \<rparr>"

text \<open>A parent in driver host 7 that exports a symbol; child 1 is colocated with it, child 2
  runs in host 8, node 3 is a composite of 0 and 1.\<close>

definition ex_sym :: "string \<Rightarrow> NodeSymbol" where
  "ex_sym nm = \<lparr> sym_name = Some nm, sym_address = Some 4096 \<rparr>"

definition ex_hosts :: node_store where
  "ex_hosts =
     [0 \<mapsto> (mk_node ''root'' [] [1, 2, 3])\<lparr>driver_host := Some 7, symbols := [ex_sym ''p'']\<rparr>,
      1 \<mapsto> (mk_node ''a'' [0] [3])\<lparr>driver_host := Some 7, symbols := [ex_sym ''a'']\<rparr>,
      2 \<mapsto> (mk_node ''b'' [0] [])\<lparr>driver_host := Some 8, symbols := [ex_sym ''b'']\<rparr>,
      3 \<mapsto> (mk_node ''composite'' [0, 1] [])\<lparr>driver_host := Some 7, symbols := [ex_sym ''c'']\<rparr>]"


text \<open>A runner that waits for the driver of node 1, started with the token of koid 42, and
  for the root driver, started with the token of koid 41.\<close>

definition ex_pending :: runner where
  "ex_pending = ex_runner\<lparr>driver_args := [41 \<mapsto> 0, 42 \<mapsto> 1]\<rparr>"

definition mk_start_info :: "HandleInfo list option \<Rightarrow> bool \<Rightarrow> ComponentStartInfo" where
  "mk_start_info hs co = \<lparr> resolved_url = ''fuchsia-boot:///#meta/drv.cm'',
                            numbered_handles = hs, colocate = co \<rparr>"

definition mk_handle :: "nat \<Rightarrow> 32 word \<Rightarrow> HandleInfo" where
  "mk_handle koid i = \<lparr> handle_valid = True, handle_koid = Inr koid, handle_id = i \<rparr>"

definition ok_env :: start_env where
  "ok_env = \<lparr> host_endpoints = None, host_connect = None, node_endpoints = None,
              host_start = None \<rparr>"

definition ex_token :: token_env where
  "ex_token = \<lparr> event_create = ZX_OK, token_info = Inr 50 \<rparr>"

text \<open>A root with two children, and the two matches that make them the parents of a
  two-slot composite for the url "X".\<close>

definition ex_two :: runner where
  "ex_two = mk_runner
     [0 \<mapsto> mk_node ''root'' [] [1, 2],
      1 \<mapsto> mk_node ''a'' [0] [],
      2 \<mapsto> mk_node ''b'' [0] []] 3"

definition ex_info :: "nat \<Rightarrow> MatchedCompositeInfo" where
  "ex_info i = \<lparr> node_index = Some i, num_nodes = Some 2,
                 driver_info = Some \<lparr> info_url = Some ''X'' \<rparr> \<rparr>"

definition ex_two_waiting :: runner where
  "ex_two_waiting = ex_two\<lparr>composite_args := [(''X'', [Some 1, None])]\<rparr>"

text \<open>The same match with the url "X", NUL, "Y": its C string is "X".\<close>

definition ex_info_nul :: "nat \<Rightarrow> MatchedCompositeInfo" where
  "ex_info_nul i = \<lparr> node_index = Some i, num_nodes = Some 2,
                     driver_info = Some \<lparr> info_url = Some [CHR ''X'', CHR 0x00, CHR ''Y''] \<rparr> \<rparr>"

text \<open>A composite node 3 with parents 1 and 2, both children of the root; its driver is the
  driver component 0, started by \<open>Start\<close>, which also bound the node server of 3.\<close>

definition ex_teardown :: runner where
  "ex_teardown = (mk_runner
     [0 \<mapsto> mk_node ''root'' [] [1, 2],
      1 \<mapsto> mk_node ''a'' [0] [3],
      2 \<mapsto> mk_node ''b'' [0] [3],
      3 \<mapsto> (mk_node ''composite'' [1, 2] [])\<lparr>driver_component := Some 0, node_ref := True\<rparr>] 4)
     \<lparr>drivers := [0 \<mapsto> \<lparr> dc_node = 3, stop_in_progress = False, stop_requests = 0 \<rparr>],
      next_driver := 1, node_servers := {3}\<rparr>"

text \<open>The trace of its teardown: \<open>Remove\<close> is called on the composite node twice, its
  driver stops, \<open>Remove\<close> is called once more, and the node server of the composite node is
  torn down.\<close>

definition ex_teardown_trace :: "event list" where
  "ex_teardown_trace =
     [Enter 3, StopSent 0, Enter 3,
      Enter 3, Unlink 3 1, Enter 1, Unlink 1 0, Unlink 3 2, Enter 2, Unlink 2 0,
      Enter 3, Enter 3]"

text \<open>A chain root - a - leaf.  The leaf is bound to driver component 0; "a" was added with
  a node server of its own.\<close>

definition ex_chain :: runner where
  "ex_chain = (mk_runner
     [0 \<mapsto> mk_node ''root'' [] [1],
      1 \<mapsto> (mk_node ''a'' [0] [2])\<lparr>node_ref := True\<rparr>,
      2 \<mapsto> (mk_node ''leaf'' [1] [])\<lparr>driver_component := Some 0, node_ref := True\<rparr>] 3)
     \<lparr>drivers := [0 \<mapsto> \<lparr> dc_node = 2, stop_in_progress = False, stop_requests = 0 \<rparr>],
      next_driver := 1, node_servers := {1, 2}\<rparr>"

text \<open>A chain root - a - leaf in which "a" is in removal and waits for its last child; the
  leaf has no driver.\<close>

definition ex_waiting :: runner where
  "ex_waiting = (mk_runner
     [0 \<mapsto> mk_node ''root'' [] [1],
      1 \<mapsto> (mk_node ''a'' [0] [2])\<lparr>removal_in_progress := True, driver_binder := False,
                                     node_ref := True\<rparr>,
      2 \<mapsto> mk_node ''leaf'' [1] []] 3)
     \<lparr>node_servers := {1}\<rparr>"

text \<open>A composite node 3 with parents 1 and 2 and no driver.\<close>

definition ex_composite :: runner where
  "ex_composite = mk_runner
     [0 \<mapsto> mk_node ''root'' [] [1, 2],
      1 \<mapsto> mk_node ''a'' [0] [3],
      2 \<mapsto> mk_node ''b'' [0] [3],
      3 \<mapsto> mk_node ''composite'' [1, 2] []] 4"

section \<open>Reachable topologies\<close>

text \<open>The runner as its constructor leaves it (line 555): the root node alone.\<close>

definition init_runner :: runner where
  "init_runner = mk_runner [0 \<mapsto> mk_node ''root'' [] []] 1"


text \<open>The states produced by sequences of AddChild calls and composite-node creations,
  each on a node that is alive.\<close>

inductive reachable :: "runner \<Rightarrow> bool" where
  init: "reachable init_runner"
| add_child: "reachable w \<Longrightarrow> AddChild this request w = Inr (r, w') \<Longrightarrow> reachable w'"
| composite: "reachable w \<Longrightarrow> nodes w node \<noteq> None \<Longrightarrow>
              CreateCompositeNode node info w = Inr (r, w') \<Longrightarrow> reachable w'"





text \<open>The root gets the children "a" and "b", both left to the driver runner to bind, and
  the driver index matches them as node 0 and node 1 of a composite driver with two nodes:
  the second match creates the composite node 3 with the parents 1 and 2.  No driver has
  been started for the composite node.\<close>

definition c3_info :: "nat \<Rightarrow> MatchedCompositeInfo" where
  "c3_info i = \<lparr> node_index = Some i, num_nodes = Some 2,
                 driver_info = Some \<lparr> info_url = Some ''X'' \<rparr> \<rparr>"

definition c3_step1 :: runner where
  "c3_step1 = snd (projr (AddChild 0 (mk_request (Some ''a'') None None) init_runner))"

definition c3_step2 :: runner where
  "c3_step2 = snd (projr (AddChild 0 (mk_request (Some ''b'') None None) c3_step1))"

definition c3_step3 :: runner where
  "c3_step3 = snd (projr (CreateCompositeNode 1 (c3_info 0) c3_step2))"

definition c3_step4 :: runner where
  "c3_step4 = snd (projr (CreateCompositeNode 2 (c3_info 1) c3_step3))"

section \<open>AddChild: validation errors leave the topology unchanged\<close>

lemma value_or_VisitOffer_source_name:
  "value_or (VisitOffer (\<lambda>d. source_name d \<noteq> None) offer) False = offer_has_source_name offer"
  by (cases "tag offer") (simp_all add: value_or_def VisitOffer_def offer_has_source_name_def)

lemma value_or_VisitOffer_ref:
  "value_or (VisitOffer (\<lambda>d. source d \<noteq> None \<or> target d \<noteq> None) offer) False = offer_has_ref offer"
  by (cases "tag offer") (simp_all add: value_or_def VisitOffer_def offer_has_ref_def)

lemma add_offers_step:
  "add_offers acc (offer # rest) =
     (if \<not> offer_has_source_name offer then Inl kOfferSourceNameMissing
      else if offer_has_ref offer then Inl kOfferRefExists
      else add_offers (acc @ [offer]) rest)"
  unfolding add_offers.simps value_or_VisitOffer_source_name value_or_VisitOffer_ref
  by (rule refl)

lemma add_offers_prefix:
  "list_all offer_accepted pre \<Longrightarrow> add_offers acc (pre @ rest) = add_offers (acc @ pre) rest"
  by (induction pre arbitrary: acc)
     (simp_all add: add_offers_step offer_accepted_def del: add_offers.simps(2))

lemma add_offers_accepted: "list_all offer_accepted l \<Longrightarrow> add_offers acc l = Inr (acc @ l)"
  using add_offers_prefix [of l acc "[]"] by simp

lemma add_offers_first_bad:
  assumes "list_all offer_accepted pre"
  shows "add_offers [] (pre @ offer # post) =
     (if \<not> offer_has_source_name offer then Inl kOfferSourceNameMissing
      else if offer_has_ref offer then Inl kOfferRefExists
      else add_offers (pre @ [offer]) post)"
  using add_offers_prefix [OF assms, of "[]" "offer # post"]
  by (simp add: add_offers_step del: add_offers.simps(2))

lemma name_exists_live:
  "\<forall>c\<in>set cs. h c \<noteq> None \<Longrightarrow> name_exists h nm cs = Inr (nm \<in> set (child_names h cs))"
  by (induction cs) (auto simp: child_names_def)

lemma add_symbols_prefix:
  "list_all symbol_complete pre \<Longrightarrow> distinct (map sym_name pre) \<Longrightarrow>
   set (map sym_name pre) \<inter> Some ` set names = {} \<Longrightarrow>
   add_symbols names acc (pre @ rest) =
     add_symbols (rev (map (\<lambda>s. the (sym_name s)) pre) @ names)
       (acc @ map (\<lambda>s. \<lparr> sym_name = sym_name s, sym_address = sym_address s \<rparr>) pre) rest"
proof (induction pre arbitrary: names acc)
  case Nil
  then show ?case by simp
next
  case (Cons s pre)
  from Cons.prems obtain nm addr where s: "sym_name s = Some nm" "sym_address s = Some addr"
    by (auto simp: symbol_complete_def)
  have fresh: "nm \<notin> set names" using Cons.prems(3) s by auto
  have "set (map sym_name pre) \<inter> Some ` set (nm # names) = {}"
    using Cons.prems(2,3) s by auto
  with Cons.IH [of "nm # names"] Cons.prems s fresh show ?case by simp
qed

lemma add_symbols_first_bad:
  assumes "list_all symbol_complete pre" "distinct (map sym_name pre)"
  shows "add_symbols [] [] (pre @ s # post) =
     (if sym_name s = None then Inl kSymbolNameMissing
      else if sym_address s = None then Inl kSymbolAddressMissing
      else if sym_name s \<in> set (map sym_name pre) then Inl kSymbolAlreadyExists
      else add_symbols (the (sym_name s) # rev (map (\<lambda>s. the (sym_name s)) pre))
             (map (\<lambda>s. \<lparr> sym_name = sym_name s, sym_address = sym_address s \<rparr>) (pre @ [s])) post)"
proof -
  have mem: "(nm \<in> (\<lambda>s. the (sym_name s)) ` set pre) = (Some nm \<in> sym_name ` set pre)" for nm
    using assms(1) by (induction pre) (auto simp: symbol_complete_def)
  have step: "add_symbols [] [] (pre @ s # post) =
      add_symbols (rev (map (\<lambda>s. the (sym_name s)) pre))
        (map (\<lambda>s. \<lparr> sym_name = sym_name s, sym_address = sym_address s \<rparr>) pre) (s # post)"
    using add_symbols_prefix [OF assms, of "[]" "[]" "s # post"] by simp
  show ?thesis
  proof (cases "sym_name s")
    case None
    then show ?thesis by (simp add: step)
  next
    case nm: (Some nm)
    show ?thesis
    proof (cases "sym_address s")
      case None
      with nm show ?thesis by (simp add: step)
    next
      case (Some addr)
      with nm show ?thesis by (simp add: step mem)
    qed
  qed
qed

lemma AddChild_child_error_unchanged:
  "AddChild_child this request w nm = Inr (Inl e, w') \<Longrightarrow> w' = w"
  unfolding AddChild_child_def Let_def
  by (auto split: option.splits if_splits sum.splits)

lemma AddChild_error_unchanged:
  "AddChild this request w = Inr (Inl e, w') \<Longrightarrow> w' = w"
  unfolding AddChild_def
  by (auto split: option.splits if_splits sum.splits bool.splits
           dest: AddChild_child_error_unchanged)

lemma AddChild_past_name:
  assumes "nodes w this = Some n" "\<forall>c\<in>set (children n). nodes w c \<noteq> None"
    and "name_accepted w n request"
  shows "\<exists>nm child. args_name (args request) = Some nm \<and>
     new_Node (nodes w) nm [this] True = Inr child \<and>
     AddChild this request w = AddChild_child this request w nm"
proof -
  from assms(3) obtain nm where nm: "driver_binder n" "args_name (args request) = Some nm"
    "CHR ''.'' \<notin> set nm" "nm \<notin> set (child_names (nodes w) (children n))"
    by (auto simp: name_accepted_def split: option.splits)
  have ne: "name_exists (nodes w) nm (children n) = Inr False"
    using name_exists_live [OF assms(2), of nm] nm(4) by simp
  have "\<exists>child. new_Node (nodes w) nm [this] True = Inr child"
    using assms(1) by (simp add: new_Node_def PrimaryParent_def Let_def)
  moreover have "AddChild this request w = AddChild_child this request w nm"
    by (simp add: AddChild_def assms(1) nm ne)
  ultimately show ?thesis using nm(2) by blast
qed

lemma AddChild_offer_error:
  assumes "nodes w this = Some n" "\<forall>c\<in>set (children n). nodes w c \<noteq> None"
    and "name_accepted w n request"
    and "args_offers (args request) = Some os" "add_offers [] os = Inl e"
  shows "AddChild this request w = Inr (Inl e, w)"
proof -
  from AddChild_past_name [OF assms(1-3)] obtain nm child where
    "new_Node (nodes w) nm [this] True = Inr child"
    "AddChild this request w = AddChild_child this request w nm" by blast
  then show ?thesis by (simp add: AddChild_child_def assms(4,5))
qed

lemma AddChild_symbol_error:
  assumes "nodes w this = Some n" "\<forall>c\<in>set (children n). nodes w c \<noteq> None"
    and "name_accepted w n request" "offers_accepted (args_offers (args request))"
    and "args_symbols (args request) = Some ss" "add_symbols [] [] ss = Inl e"
  shows "AddChild this request w = Inr (Inl e, w)"
proof -
  from AddChild_past_name [OF assms(1-3)] obtain nm child where
    "new_Node (nodes w) nm [this] True = Inr child"
    "AddChild this request w = AddChild_child this request w nm" by blast
  moreover have "\<exists>offs. (case args_offers (args request) of
                  None \<Rightarrow> Inr [] | Some os \<Rightarrow> add_offers [] os) = Inr offs"
    using assms(4) by (auto simp: offers_accepted_def add_offers_accepted split: option.splits)
  ultimately show ?thesis by (auto simp: AddChild_child_def Let_def assms(5,6))
qed

text \<open>
  Claim C1.  For every AddChild request on a live node whose children are alive, the
  checks are made in the order of the source and the first that fails decides the reply:
  a node in removal (binder cleared) replies NodeRemoved; otherwise an absent name replies
  NameMissing; otherwise a name containing '.' replies NameInvalid; otherwise a name equal
  to an existing child's name replies NameAlreadyExists; otherwise the offers are examined
  in order and the first offer that is not acceptable replies OfferSourceNameMissing when
  it lacks a source name and OfferRefExists when it has one and carries a source or target
  reference; otherwise the symbols are examined in order and the first bad symbol replies
  SymbolNameMissing, SymbolAddressMissing or SymbolAlreadyExists.  In each of these cases,
  and on any error reply whatsoever, the runner state (hence every children list) is the
  one before the call: no child is attached.
\<close>

theorem AddChild_validation_errors:
  assumes live: "nodes w this = Some n"
    and kids: "\<forall>c\<in>set (children n). nodes w c \<noteq> None"
  shows
   "(\<not> driver_binder n \<longrightarrow> AddChild this request w = Inr (Inl kNodeRemoved, w))
  \<and> (driver_binder n \<and> args_name (args request) = None \<longrightarrow>
       AddChild this request w = Inr (Inl kNameMissing, w))
  \<and> (\<forall>nm. driver_binder n \<and> args_name (args request) = Some nm \<and> CHR ''.'' \<in> set nm \<longrightarrow>
       AddChild this request w = Inr (Inl kNameInvalid, w))
  \<and> (\<forall>nm. driver_binder n \<and> args_name (args request) = Some nm \<and> CHR ''.'' \<notin> set nm \<and>
          nm \<in> set (child_names (nodes w) (children n)) \<longrightarrow>
       AddChild this request w = Inr (Inl kNameAlreadyExists, w))
  \<and> (\<forall>pre offer post. name_accepted w n request \<and>
          args_offers (args request) = Some (pre @ offer # post) \<and>
          list_all offer_accepted pre \<and> \<not> offer_has_source_name offer \<longrightarrow>
       AddChild this request w = Inr (Inl kOfferSourceNameMissing, w))
  \<and> (\<forall>pre offer post. name_accepted w n request \<and>
          args_offers (args request) = Some (pre @ offer # post) \<and>
          list_all offer_accepted pre \<and> offer_has_source_name offer \<and> offer_has_ref offer \<longrightarrow>
       AddChild this request w = Inr (Inl kOfferRefExists, w))
  \<and> (\<forall>pre s post. name_accepted w n request \<and> offers_accepted (args_offers (args request)) \<and>
          args_symbols (args request) = Some (pre @ s # post) \<and>
          list_all symbol_complete pre \<and> distinct (map sym_name pre) \<and> sym_name s = None \<longrightarrow>
       AddChild this request w = Inr (Inl kSymbolNameMissing, w))
  \<and> (\<forall>pre s post. name_accepted w n request \<and> offers_accepted (args_offers (args request)) \<and>
          args_symbols (args request) = Some (pre @ s # post) \<and>
          list_all symbol_complete pre \<and> distinct (map sym_name pre) \<and>
          sym_name s \<noteq> None \<and> sym_address s = None \<longrightarrow>
       AddChild this request w = Inr (Inl kSymbolAddressMissing, w))
  \<and> (\<forall>pre s post. name_accepted w n request \<and> offers_accepted (args_offers (args request)) \<and>
          args_symbols (args request) = Some (pre @ s # post) \<and>
          list_all symbol_complete pre \<and> distinct (map sym_name pre) \<and>
          symbol_complete s \<and> sym_name s \<in> set (map sym_name pre) \<longrightarrow>
       AddChild this request w = Inr (Inl kSymbolAlreadyExists, w))
  \<and> (\<forall>e w'. AddChild this request w = Inr (Inl e, w') \<longrightarrow>
       w' = w \<and> nodes w' = nodes w)"
proof -
  have c1: "\<not> driver_binder n \<longrightarrow> AddChild this request w = Inr (Inl kNodeRemoved, w)"
    by (simp add: AddChild_def live)
  have c2: "driver_binder n \<and> args_name (args request) = None \<longrightarrow>
       AddChild this request w = Inr (Inl kNameMissing, w)"
    by (simp add: AddChild_def live)
  have c3: "\<forall>nm. driver_binder n \<and> args_name (args request) = Some nm \<and> CHR ''.'' \<in> set nm \<longrightarrow>
       AddChild this request w = Inr (Inl kNameInvalid, w)"
    by (simp add: AddChild_def live)
  have c4: "\<forall>nm. driver_binder n \<and> args_name (args request) = Some nm \<and> CHR ''.'' \<notin> set nm \<and>
          nm \<in> set (child_names (nodes w) (children n)) \<longrightarrow>
       AddChild this request w = Inr (Inl kNameAlreadyExists, w)"
    by (simp add: AddChild_def live name_exists_live [OF kids])
  have c5: "\<forall>pre offer post. name_accepted w n request \<and>
          args_offers (args request) = Some (pre @ offer # post) \<and>
          list_all offer_accepted pre \<and> \<not> offer_has_source_name offer \<longrightarrow>
       AddChild this request w = Inr (Inl kOfferSourceNameMissing, w)"
    using AddChild_offer_error [OF live kids] by (simp add: add_offers_first_bad)
  have c6: "\<forall>pre offer post. name_accepted w n request \<and>
          args_offers (args request) = Some (pre @ offer # post) \<and>
          list_all offer_accepted pre \<and> offer_has_source_name offer \<and> offer_has_ref offer \<longrightarrow>
       AddChild this request w = Inr (Inl kOfferRefExists, w)"
    using AddChild_offer_error [OF live kids] by (simp add: add_offers_first_bad)
  have c7: "\<forall>pre s post. name_accepted w n request \<and> offers_accepted (args_offers (args request)) \<and>
          args_symbols (args request) = Some (pre @ s # post) \<and>
          list_all symbol_complete pre \<and> distinct (map sym_name pre) \<and> sym_name s = None \<longrightarrow>
       AddChild this request w = Inr (Inl kSymbolNameMissing, w)"
    using AddChild_symbol_error [OF live kids] by (simp add: add_symbols_first_bad)
  have c8: "\<forall>pre s post. name_accepted w n request \<and> offers_accepted (args_offers (args request)) \<and>
          args_symbols (args request) = Some (pre @ s # post) \<and>
          list_all symbol_complete pre \<and> distinct (map sym_name pre) \<and>
          sym_name s \<noteq> None \<and> sym_address s = None \<longrightarrow>
       AddChild this request w = Inr (Inl kSymbolAddressMissing, w)"
    using AddChild_symbol_error [OF live kids] by (simp add: add_symbols_first_bad)
  have c9: "\<forall>pre s post. name_accepted w n request \<and> offers_accepted (args_offers (args request)) \<and>
          args_symbols (args request) = Some (pre @ s # post) \<and>
          list_all symbol_complete pre \<and> distinct (map sym_name pre) \<and>
          symbol_complete s \<and> sym_name s \<in> set (map sym_name pre) \<longrightarrow>
       AddChild this request w = Inr (Inl kSymbolAlreadyExists, w)"
    using AddChild_symbol_error [OF live kids]
    by (simp add: add_symbols_first_bad symbol_complete_def)
  have c10: "\<forall>e w'. AddChild this request w = Inr (Inl e, w') \<longrightarrow> w' = w \<and> nodes w' = nodes w"
    using AddChild_error_unchanged by blast
  from c1 c2 c3 c4 c5 c6 c7 c8 c9 c10 show ?thesis by (intro conjI)
qed

theorem AddChild_validation_errors_witness:
  "AddChild 2 (mk_request (Some ''x'') None None) ex_runner = Inr (Inl kNodeRemoved, ex_runner)
 \<and> AddChild 0 (mk_request None None None) ex_runner = Inr (Inl kNameMissing, ex_runner)
 \<and> AddChild 0 (mk_request (Some ''a.b'') None None) ex_runner = Inr (Inl kNameInvalid, ex_runner)
 \<and> AddChild 0 (mk_request (Some ''disk'') None None) ex_runner
      = Inr (Inl kNameAlreadyExists, ex_runner)
 \<and> AddChild 0 (mk_request (Some ''usb'') (Some [mk_offer kProtocol None None]) None) ex_runner
      = Inr (Inl kOfferSourceNameMissing, ex_runner)
 \<and> AddChild 0 (mk_request (Some ''usb'')
        (Some [mk_offer kProtocol (Some ''svc'') (Some WithOther)]) None) ex_runner
      = Inr (Inl kOfferRefExists, ex_runner)
 \<and> AddChild 0 (mk_request (Some ''usb'') None
        (Some [\<lparr> sym_name = None, sym_address = Some 1 \<rparr>])) ex_runner
      = Inr (Inl kSymbolNameMissing, ex_runner)
 \<and> AddChild 0 (mk_request (Some ''usb'') None
        (Some [\<lparr> sym_name = Some ''s'', sym_address = None \<rparr>])) ex_runner
      = Inr (Inl kSymbolAddressMissing, ex_runner)
 \<and> AddChild 0 (mk_request (Some ''usb'') None
        (Some [\<lparr> sym_name = Some ''s'', sym_address = Some 1 \<rparr>,
               \<lparr> sym_name = Some ''s'', sym_address = Some 2 \<rparr>])) ex_runner
      = Inr (Inl kSymbolAlreadyExists, ex_runner)"
proof -
  have live0: "nodes ex_runner 0 = Some (mk_node ''root'' [] [1])"
    by (simp add: ex_runner_def mk_runner_def)
  have kids0: "\<forall>c\<in>set (children (mk_node ''root'' [] [1])). nodes ex_runner c \<noteq> None"
    by (simp add: ex_runner_def mk_runner_def mk_node_def)
  have live2: "nodes ex_runner 2 =
      Some ((mk_node ''gone'' [] [])\<lparr>driver_binder := False, removal_in_progress := True\<rparr>)"
    by (simp add: ex_runner_def mk_runner_def)
  have kids2: "\<forall>c\<in>set (children ((mk_node ''gone'' [] [])
      \<lparr>driver_binder := False, removal_in_progress := True\<rparr>)). nodes ex_runner c \<noteq> None"
    by (simp add: mk_node_def)
  note T0 = AddChild_validation_errors [OF live0 kids0]
  note T2 = AddChild_validation_errors [OF live2 kids2]
  note ex = ex_runner_def mk_runner_def mk_node_def mk_request_def mk_offer_def
  have acc: "\<And>os ss. name_accepted ex_runner (mk_node ''root'' [] [1]) (mk_request (Some ''usb'') os ss)"
    by (simp add: name_accepted_def child_names_def ex)
  have w1: "AddChild 2 (mk_request (Some ''x'') None None) ex_runner = Inr (Inl kNodeRemoved, ex_runner)"
    by (rule T2 [THEN conjunct1, rule_format]) (simp add: ex)
  have w2: "AddChild 0 (mk_request None None None) ex_runner = Inr (Inl kNameMissing, ex_runner)"
    by (rule T0 [THEN conjunct2, THEN conjunct1, rule_format]) (simp add: ex)
  have w3: "AddChild 0 (mk_request (Some ''a.b'') None None) ex_runner = Inr (Inl kNameInvalid, ex_runner)"
    by (rule T0 [THEN conjunct2, THEN conjunct2, THEN conjunct1, rule_format, of _ "''a.b''"])
       (simp add: ex)
  have w4: "AddChild 0 (mk_request (Some ''disk'') None None) ex_runner
      = Inr (Inl kNameAlreadyExists, ex_runner)"
    by (rule T0 [THEN conjunct2, THEN conjunct2, THEN conjunct2, THEN conjunct1, rule_format,
                 of _ "''disk''"])
       (simp add: child_names_def ex)
  note T5 = T0 [THEN conjunct2, THEN conjunct2, THEN conjunct2, THEN conjunct2]
  have w5: "AddChild 0 (mk_request (Some ''usb'') (Some [mk_offer kProtocol None None]) None)
      ex_runner = Inr (Inl kOfferSourceNameMissing, ex_runner)"
    by (rule T5 [THEN conjunct1, rule_format, of _ "[]" "mk_offer kProtocol None None" "[]"])
       (intro conjI acc; simp add: mk_request_def mk_offer_def offer_has_source_name_def)
  have w6: "AddChild 0 (mk_request (Some ''usb'')
        (Some [mk_offer kProtocol (Some ''svc'') (Some WithOther)]) None) ex_runner
      = Inr (Inl kOfferRefExists, ex_runner)"
    by (rule T5 [THEN conjunct2, THEN conjunct1, rule_format,
                 of _ "[]" "mk_offer kProtocol (Some ''svc'') (Some WithOther)" "[]"])
       (intro conjI acc; simp add: mk_request_def mk_offer_def offer_has_source_name_def
          offer_has_ref_def)
  note T7 = T5 [THEN conjunct2, THEN conjunct2]
  have w7: "AddChild 0 (mk_request (Some ''usb'') None
        (Some [\<lparr> sym_name = None, sym_address = Some 1 \<rparr>])) ex_runner
      = Inr (Inl kSymbolNameMissing, ex_runner)"
    by (rule T7 [THEN conjunct1, rule_format,
                 of _ "[]" "\<lparr> sym_name = None, sym_address = Some 1 \<rparr>" "[]"])
       (intro conjI acc; simp add: mk_request_def offers_accepted_def)
  have w8: "AddChild 0 (mk_request (Some ''usb'') None
        (Some [\<lparr> sym_name = Some ''s'', sym_address = None \<rparr>])) ex_runner
      = Inr (Inl kSymbolAddressMissing, ex_runner)"
    by (rule T7 [THEN conjunct2, THEN conjunct1, rule_format,
                 of _ "[]" "\<lparr> sym_name = Some ''s'', sym_address = None \<rparr>" "[]"])
       (intro conjI acc; simp add: mk_request_def offers_accepted_def)
  have w9: "AddChild 0 (mk_request (Some ''usb'') None
        (Some [\<lparr> sym_name = Some ''s'', sym_address = Some 1 \<rparr>,
               \<lparr> sym_name = Some ''s'', sym_address = Some 2 \<rparr>])) ex_runner
      = Inr (Inl kSymbolAlreadyExists, ex_runner)"
    by (rule T7 [THEN conjunct2, THEN conjunct2, THEN conjunct1, rule_format,
                 of _ "[\<lparr> sym_name = Some ''s'', sym_address = Some 1 \<rparr>]"
                      "\<lparr> sym_name = Some ''s'', sym_address = Some 2 \<rparr>" "[]"])
       (intro conjI acc; simp add: mk_request_def offers_accepted_def symbol_complete_def)
  from w1 w2 w3 w4 w5 w6 w7 w8 w9 show ?thesis by (intro conjI)
qed

section \<open>Driver host inheritance and symbol visibility\<close>

text \<open>
  Claim C9.  A node constructed with at least one parent starts with its primary parent's
  driver host.  \<open>Node::symbols\<close> returns a non-empty list only if the node has a primary
  parent whose driver host equals the node's, and the list is then the primary parent's
  symbols for a composite node (more than one parent) and the node's own otherwise; a node
  whose driver host differs from its primary parent's gets the empty list.
\<close>

theorem symbols_only_when_colocated:
  "(\<forall>n p pn. new_Node h nm ps binder = Inr n \<and> PrimaryParent ps = Some p \<and> h p = Some pn
       \<longrightarrow> driver_host n = driver_host pn \<and> parents n = ps)
 \<and> (\<forall>n syms. h this = Some n \<and> Node_symbols h this = Inr syms \<and> syms \<noteq> []
       \<longrightarrow> (\<exists>p pn. PrimaryParent (parents n) = Some p \<and> h p = Some pn \<and>
                   driver_host pn = driver_host n \<and>
                   syms = (if 1 < length (parents n) then symbols pn else symbols n)))
 \<and> (\<forall>n p pn. h this = Some n \<and> PrimaryParent (parents n) = Some p \<and> h p = Some pn \<and>
        driver_host pn \<noteq> driver_host n
       \<longrightarrow> Node_symbols h this = Inr [])"
proof -
  have a: "\<forall>n p pn. new_Node h nm ps binder = Inr n \<and> PrimaryParent ps = Some p \<and> h p = Some pn
       \<longrightarrow> driver_host n = driver_host pn \<and> parents n = ps"
    by (auto simp: new_Node_def Let_def)
  have b: "\<forall>n syms. h this = Some n \<and> Node_symbols h this = Inr syms \<and> syms \<noteq> []
       \<longrightarrow> (\<exists>p pn. PrimaryParent (parents n) = Some p \<and> h p = Some pn \<and>
                   driver_host pn = driver_host n \<and>
                   syms = (if 1 < length (parents n) then symbols pn else symbols n))"
    by (auto simp: Node_symbols_def split: option.splits if_splits)
  have c: "\<forall>n p pn. h this = Some n \<and> PrimaryParent (parents n) = Some p \<and> h p = Some pn \<and>
        driver_host pn \<noteq> driver_host n
       \<longrightarrow> Node_symbols h this = Inr []"
    by (simp add: Node_symbols_def)
  from a b c show ?thesis by (intro conjI)
qed

theorem symbols_only_when_colocated_witness:
  "(\<exists>n. new_Node ex_hosts ''x'' [2, 0] True = Inr n \<and> driver_host n = Some 8 \<and> parents n = [2, 0])
 \<and> Node_symbols ex_hosts 1 = Inr [ex_sym ''a'']
 \<and> Node_symbols ex_hosts 3 = Inr [ex_sym ''p'']
 \<and> Node_symbols ex_hosts 2 = Inr []"
proof -
  note ex = ex_hosts_def mk_node_def PrimaryParent_def
  note T = symbols_only_when_colocated [of ex_hosts]
  let ?n2 = "(mk_node ''b'' [0] [])\<lparr>driver_host := Some 8, symbols := [ex_sym ''b'']\<rparr>"
  let ?n0 = "(mk_node ''root'' [] [1, 2, 3])\<lparr>driver_host := Some 7, symbols := [ex_sym ''p'']\<rparr>"
  obtain n where n: "new_Node ex_hosts ''x'' [2, 0] True = Inr n"
    by (simp add: new_Node_def Let_def ex)
  have "new_Node ex_hosts ''x'' [2, 0] True = Inr n \<and> PrimaryParent [2, 0] = Some 2 \<and>
        ex_hosts 2 = Some ?n2"
    by (simp add: n) (simp add: ex)
  then have "driver_host n = driver_host ?n2 \<and> parents n = [2, 0]"
    by (rule T [THEN conjunct1, rule_format])
  then have "new_Node ex_hosts ''x'' [2, 0] True = Inr n \<and> driver_host n = Some 8 \<and> parents n = [2, 0]"
    by (simp add: n mk_node_def)
  then have w1: "\<exists>n. new_Node ex_hosts ''x'' [2, 0] True = Inr n \<and> driver_host n = Some 8 \<and> parents n = [2, 0]"
    by (rule exI)
  have s1: "Node_symbols ex_hosts 1 = Inr [ex_sym ''a'']"
    by (simp add: Node_symbols_def ex)
  have s3: "Node_symbols ex_hosts 3 = Inr [ex_sym ''p'']"
    by (simp add: Node_symbols_def ex)
  have "ex_hosts 2 = Some ?n2 \<and> PrimaryParent (parents ?n2) = Some 0 \<and> ex_hosts 0 = Some ?n0 \<and>
        driver_host ?n0 \<noteq> driver_host ?n2"
    by (simp add: ex)
  then have w2: "Node_symbols ex_hosts 2 = Inr []"
    by (rule T [THEN conjunct2, THEN conjunct2, rule_format])
  from w1 s1 s3 w2 show ?thesis by (intro conjI)
qed

section \<open>CreateOffers: the ancestor walk\<close>

lemma find_source_result:
  "find_source f h start = Inr src \<Longrightarrow> \<exists>sn. h src = Some sn \<and> collection sn \<noteq> kNone"
  by (induction f h start rule: find_source.induct) (auto split: option.splits if_splits)


section \<open>DriverRunner::Start: validation of the start token\<close>

lemma CreateComponent_no_node:
  "CreateComponent f nm coll url None w = Inr w' \<Longrightarrow>
     driver_args w' = driver_args w \<and> nodes w' = nodes w \<and> root_node w' = root_node w"
  by (auto simp: CreateComponent_def)

lemma StartDriverHost_driver_args:
  "StartDriverHost env w = Inr (r, w') \<Longrightarrow> driver_args w' = driver_args w"
  by (auto simp: StartDriverHost_def Let_def split: option.splits sum.splits
           dest!: CreateComponent_no_node)

lemma Start_driver_driver_args:
  "Start_driver env node w = Inr (r, w') \<Longrightarrow> driver_args w' = driver_args w"
  by (auto simp: Start_driver_def Let_def split: option.splits)

lemma Start_after_lookup:
  assumes "numbered_handles si = Some [hi]" "handle_valid hi" "handle_id hi = tok"
    and "handle_koid hi = Inr koid" "driver_args w koid = Some node"
    and "Start tok env si w = Inr (r, w')"
  shows "driver_args w' = (driver_args w)(koid := None)"
proof (cases "colocate si")
  case True
  with assms show ?thesis
    by (auto simp: Start_def Let_def split: if_splits dest!: Start_driver_driver_args)
next
  case False
  with assms show ?thesis
    by (auto simp: Start_def Let_def split: if_splits sum.splits option.splits
             dest!: Start_driver_driver_args StartDriverHost_driver_args)
qed

text \<open>
  Claim C7.  A Start request without numbered handles, or whose handle list is not exactly
  one valid handle tagged with the reserved token id, is closed with ZX_ERR_INVALID_ARGS
  and changes nothing; a token whose koid is not in the pending map is closed with
  ZX_ERR_UNAVAILABLE and changes nothing; when the koid is found, every outcome of Start
  has the mapping erased; and a colocated start of the root node is closed with
  ZX_ERR_INVALID_ARGS, the mapping being erased.
\<close>

theorem Start_token_validation:
  "(numbered_handles si = None \<longrightarrow> Start tok env si w = Inr (Some ZX_ERR_INVALID_ARGS, w))
 \<and> (\<forall>hs. numbered_handles si = Some hs \<and>
          \<not> (\<exists>hi. hs = [hi] \<and> handle_valid hi \<and> handle_id hi = tok) \<longrightarrow>
        Start tok env si w = Inr (Some ZX_ERR_INVALID_ARGS, w))
 \<and> (\<forall>hi koid. numbered_handles si = Some [hi] \<and> handle_valid hi \<and> handle_id hi = tok \<and>
          handle_koid hi = Inr koid \<and> driver_args w koid = None \<longrightarrow>
        Start tok env si w = Inr (Some ZX_ERR_UNAVAILABLE, w))
 \<and> (\<forall>hi koid node r w'. numbered_handles si = Some [hi] \<and> handle_valid hi \<and>
          handle_id hi = tok \<and> handle_koid hi = Inr koid \<and> driver_args w koid = Some node \<and>
          Start tok env si w = Inr (r, w') \<longrightarrow>
        driver_args w' = (driver_args w)(koid := None))
 \<and> (\<forall>hi koid. numbered_handles si = Some [hi] \<and> handle_valid hi \<and> handle_id hi = tok \<and>
          handle_koid hi = Inr koid \<and> driver_args w koid = Some (root_node w) \<and> colocate si \<longrightarrow>
        Start tok env si w =
          Inr (Some ZX_ERR_INVALID_ARGS, w\<lparr>driver_args := (driver_args w)(koid := None)\<rparr>))"
proof -
  have a: "numbered_handles si = None \<longrightarrow> Start tok env si w = Inr (Some ZX_ERR_INVALID_ARGS, w)"
    by (simp add: Start_def)
  have b: "\<forall>hs. numbered_handles si = Some hs \<and>
          \<not> (\<exists>hi. hs = [hi] \<and> handle_valid hi \<and> handle_id hi = tok) \<longrightarrow>
        Start tok env si w = Inr (Some ZX_ERR_INVALID_ARGS, w)"
  proof (intro allI impI)
    fix hs
    assume h: "numbered_handles si = Some hs \<and>
          \<not> (\<exists>hi. hs = [hi] \<and> handle_valid hi \<and> handle_id hi = tok)"
    have "length hs \<noteq> 1 \<or> \<not> handle_valid (hs ! 0) \<or> handle_id (hs ! 0) \<noteq> tok"
    proof (cases hs)
      case Nil
      then show ?thesis by simp
    next
      case (Cons x xs)
      with h show ?thesis by (cases xs) auto
    qed
    with h show "Start tok env si w = Inr (Some ZX_ERR_INVALID_ARGS, w)"
      by (simp add: Start_def)
  qed
  have c: "\<forall>hi koid. numbered_handles si = Some [hi] \<and> handle_valid hi \<and> handle_id hi = tok \<and>
          handle_koid hi = Inr koid \<and> driver_args w koid = None \<longrightarrow>
        Start tok env si w = Inr (Some ZX_ERR_UNAVAILABLE, w)"
    by (simp add: Start_def)
  have d: "\<forall>hi koid node r w'. numbered_handles si = Some [hi] \<and> handle_valid hi \<and>
          handle_id hi = tok \<and> handle_koid hi = Inr koid \<and> driver_args w koid = Some node \<and>
          Start tok env si w = Inr (r, w') \<longrightarrow>
        driver_args w' = (driver_args w)(koid := None)"
    using Start_after_lookup by blast
  have e: "\<forall>hi koid. numbered_handles si = Some [hi] \<and> handle_valid hi \<and> handle_id hi = tok \<and>
          handle_koid hi = Inr koid \<and> driver_args w koid = Some (root_node w) \<and> colocate si \<longrightarrow>
        Start tok env si w =
          Inr (Some ZX_ERR_INVALID_ARGS, w\<lparr>driver_args := (driver_args w)(koid := None)\<rparr>)"
    by (simp add: Start_def Let_def)
  from a b c d e show ?thesis by (intro conjI)
qed

theorem Start_token_validation_witness:
  "Start 240 ok_env (mk_start_info None False) ex_pending
      = Inr (Some ZX_ERR_INVALID_ARGS, ex_pending)
 \<and> Start 240 ok_env (mk_start_info (Some [mk_handle 42 240, mk_handle 41 240]) False) ex_pending
      = Inr (Some ZX_ERR_INVALID_ARGS, ex_pending)
 \<and> Start 240 ok_env (mk_start_info (Some [mk_handle 42 7]) False) ex_pending
      = Inr (Some ZX_ERR_INVALID_ARGS, ex_pending)
 \<and> Start 240 ok_env (mk_start_info (Some [mk_handle 99 240]) False) ex_pending
      = Inr (Some ZX_ERR_UNAVAILABLE, ex_pending)
 \<and> (\<exists>r w'. Start 240 ok_env (mk_start_info (Some [mk_handle 42 240]) False) ex_pending = Inr (r, w')
        \<and> driver_args w' 42 = None \<and> driver_args w' 41 = Some 0)
 \<and> Start 240 ok_env (mk_start_info (Some [mk_handle 41 240]) True) ex_pending
      = Inr (Some ZX_ERR_INVALID_ARGS, ex_pending\<lparr>driver_args := (driver_args ex_pending)(41 := None)\<rparr>)"
proof -
  note ex = mk_start_info_def mk_handle_def ex_pending_def ex_runner_def mk_runner_def
  note T = Start_token_validation [of _ 240 ok_env ex_pending]
  have w1: "Start 240 ok_env (mk_start_info None False) ex_pending
      = Inr (Some ZX_ERR_INVALID_ARGS, ex_pending)"
    by (rule T [THEN conjunct1, rule_format]) (simp add: ex)
  have w2: "Start 240 ok_env (mk_start_info (Some [mk_handle 42 240, mk_handle 41 240]) False)
      ex_pending = Inr (Some ZX_ERR_INVALID_ARGS, ex_pending)"
    by (rule T [THEN conjunct2, THEN conjunct1, rule_format,
                of _ "[mk_handle 42 240, mk_handle 41 240]"]) (simp add: ex)
  have w3: "Start 240 ok_env (mk_start_info (Some [mk_handle 42 7]) False) ex_pending
      = Inr (Some ZX_ERR_INVALID_ARGS, ex_pending)"
    by (rule T [THEN conjunct2, THEN conjunct1, rule_format, of _ "[mk_handle 42 7]"])
       (simp add: ex)
  note T3 = T [THEN conjunct2, THEN conjunct2]
  have w4: "Start 240 ok_env (mk_start_info (Some [mk_handle 99 240]) False) ex_pending
      = Inr (Some ZX_ERR_UNAVAILABLE, ex_pending)"
    by (rule T3 [THEN conjunct1, rule_format, of _ "mk_handle 99 240" 99]) (simp add: ex)
  let ?si = "mk_start_info (Some [mk_handle 42 240]) False"
  have "\<exists>r w'. Start 240 ok_env ?si ex_pending = Inr (r, w')"
    by (simp add: Start_def StartDriverHost_def CreateComponent_def Start_driver_def Let_def
          ok_env_def mk_node_def ex del: to_string.simps)
  then obtain r w' where run: "Start 240 ok_env ?si ex_pending = Inr (r, w')" by blast
  have "numbered_handles ?si = Some [mk_handle 42 240] \<and> handle_valid (mk_handle 42 240) \<and>
        handle_id (mk_handle 42 240) = 240 \<and> handle_koid (mk_handle 42 240) = Inr 42 \<and>
        driver_args ex_pending 42 = Some 1 \<and> Start 240 ok_env ?si ex_pending = Inr (r, w')"
    by (simp add: run) (simp add: ex)
  then have "driver_args w' = (driver_args ex_pending)(42 := None)"
    by (rule T3 [THEN conjunct2, THEN conjunct1, rule_format])
  then have "Start 240 ok_env ?si ex_pending = Inr (r, w') \<and> driver_args w' 42 = None \<and>
      driver_args w' 41 = Some 0"
    by (simp add: run) (simp add: ex)
  then have w5: "\<exists>r w'. Start 240 ok_env ?si ex_pending = Inr (r, w') \<and> driver_args w' 42 = None \<and>
      driver_args w' 41 = Some 0"
    by blast
  have w6: "Start 240 ok_env (mk_start_info (Some [mk_handle 41 240]) True) ex_pending
      = Inr (Some ZX_ERR_INVALID_ARGS, ex_pending\<lparr>driver_args := (driver_args ex_pending)(41 := None)\<rparr>)"
    by (rule T3 [THEN conjunct2, THEN conjunct2, rule_format, of _ "mk_handle 41 240" 41])
       (simp add: ex)
  from w1 w2 w3 w4 w5 w6 show ?thesis by (intro conjI)
qed

section \<open>Bind: match failures orphan the node\<close>

text \<open>
  Claim C8.  When the match callback of Bind runs for a node that is still alive and
  receives a transport failure, an error result, a matched driver that is neither a normal
  nor a composite driver, or driver info without a URL (for a composite driver also: no
  driver info at all), the new runner state is the old one with the node appended to the
  orphaned nodes: in particular StartDriver has not been called and no fault or error
  comes back.  Bind itself only sends the match request and returns nothing.
\<close>

theorem Bind_failure_orphans_node:
  assumes "nodes w node = Some n"
    and "result = TransportError \<or> (\<exists>s. result = MatchError s) \<or>
         result = MatchResponse OtherDriver \<or>
         (\<exists>di. result = MatchResponse (Driver di) \<and> info_url di = None) \<or>
         (\<exists>ci. result = MatchResponse (CompositeDriver ci) \<and>
               (driver_info ci = None \<or> (\<exists>di. driver_info ci = Some di \<and> info_url di = None)))"
  shows "match_callback f env node result w
           = Inr (w\<lparr>orphaned_nodes := orphaned_nodes w @ [node]\<rparr>)
       \<and> (\<forall>w'. match_callback f env node result w = Inr w' \<longrightarrow>
             start_calls w' = start_calls w \<and> create_calls w' = create_calls w \<and>
             nodes w' = nodes w)
       \<and> orphaned_nodes (Bind node add_args w) = orphaned_nodes w
       \<and> start_calls (Bind node add_args w) = start_calls w
       \<and> match_requests (Bind node add_args w) = match_requests w @ [(node, add_args)]"
proof -
  have r: "match_callback f env node result w
           = Inr (w\<lparr>orphaned_nodes := orphaned_nodes w @ [node]\<rparr>)"
    using assms by (auto simp: match_callback_def orphaned_def)
  then show ?thesis by (simp add: Bind_def)
qed

theorem Bind_failure_orphans_node_witness:
  "match_callback 5 ex_token 1 TransportError ex_runner = Inr (ex_runner\<lparr>orphaned_nodes := [1]\<rparr>)
 \<and> match_callback 5 ex_token 1 (MatchError (ZX_ERR_OTHER 25)) ex_runner
      = Inr (ex_runner\<lparr>orphaned_nodes := [1]\<rparr>)
 \<and> match_callback 5 ex_token 1 (MatchResponse OtherDriver) ex_runner
      = Inr (ex_runner\<lparr>orphaned_nodes := [1]\<rparr>)
 \<and> match_callback 5 ex_token 1 (MatchResponse (Driver \<lparr> info_url = None \<rparr>)) ex_runner
      = Inr (ex_runner\<lparr>orphaned_nodes := [1]\<rparr>)
 \<and> match_callback 5 ex_token 1
      (MatchResponse (CompositeDriver \<lparr> node_index = Some 0, num_nodes = Some 2,
                                         driver_info = Some \<lparr> info_url = None \<rparr> \<rparr>)) ex_runner
      = Inr (ex_runner\<lparr>orphaned_nodes := [1]\<rparr>)"
proof -
  have live: "nodes ex_runner 1 = Some (mk_node ''disk'' [0] [])"
    by (simp add: ex_runner_def mk_runner_def)
  have o: "ex_runner\<lparr>orphaned_nodes := orphaned_nodes ex_runner @ [1]\<rparr>
      = ex_runner\<lparr>orphaned_nodes := [1]\<rparr>"
    by (simp add: ex_runner_def mk_runner_def)
  note T = Bind_failure_orphans_node [OF live, of _ 5 ex_token, THEN conjunct1, unfolded o]
  have w1: "match_callback 5 ex_token 1 TransportError ex_runner
      = Inr (ex_runner\<lparr>orphaned_nodes := [1]\<rparr>)"
    by (rule T) simp
  have w2: "match_callback 5 ex_token 1 (MatchError (ZX_ERR_OTHER 25)) ex_runner
      = Inr (ex_runner\<lparr>orphaned_nodes := [1]\<rparr>)"
    by (rule T) simp
  have w3: "match_callback 5 ex_token 1 (MatchResponse OtherDriver) ex_runner
      = Inr (ex_runner\<lparr>orphaned_nodes := [1]\<rparr>)"
    by (rule T) simp
  have w4: "match_callback 5 ex_token 1 (MatchResponse (Driver \<lparr> info_url = None \<rparr>)) ex_runner
      = Inr (ex_runner\<lparr>orphaned_nodes := [1]\<rparr>)"
    by (rule T) simp
  have w5: "match_callback 5 ex_token 1
      (MatchResponse (CompositeDriver \<lparr> node_index = Some 0, num_nodes = Some 2,
                                         driver_info = Some \<lparr> info_url = None \<rparr> \<rparr>)) ex_runner
      = Inr (ex_runner\<lparr>orphaned_nodes := [1]\<rparr>)"
    by (rule T) simp
  from w1 w2 w3 w4 w5 show ?thesis by (intro conjI)
qed

section \<open>Composite nodes: pending sets and creation\<close>

lemma find_args_Some:
  "find_args h u idx num es k = Inr (Some i) \<Longrightarrow>
     k \<le> i \<and> i - k < length es \<and> fst (es ! (i - k)) = u \<and>
     length (snd (es ! (i - k))) = num \<and> expired h (snd (es ! (i - k)) ! idx)"
proof (induction es arbitrary: k)
  case Nil
  then show ?case by simp
next
  case (Cons e es)
  obtain key slots where e: "e = (key, slots)" by (cases e)
  show ?case
  proof (cases "key = u \<and> length slots = num \<and> expired h (slots ! idx)")
    case True
    with Cons.prems e show ?thesis by simp
  next
    case False
    with Cons.prems e have rec: "find_args h u idx num es (Suc k) = Inr (Some i)"
      by (auto split: if_splits)
    from Cons.IH [OF rec] have "Suc k \<le> i" "i - Suc k < length es"
      "fst (es ! (i - Suc k)) = u" "length (snd (es ! (i - Suc k))) = num"
      "expired h (snd (es ! (i - Suc k)) ! idx)" by auto
    moreover have "i - k = Suc (i - Suc k)" using \<open>Suc k \<le> i\<close> by simp
    ultimately show ?thesis by simp
  qed
qed

lemma AddToCompositeArgs_ok:
  assumes "AddToCompositeArgs info w = Inr (i, w1)"
  shows "\<exists>idx num. node_index info = Some idx \<and> num_nodes info = Some num \<and> idx < num \<and>
           i < length (composite_args w1) \<and> length (snd (composite_args w1 ! i)) = num \<and>
           nodes w1 = nodes w \<and> next_node w1 = next_node w \<and>
           orphaned_nodes w1 = orphaned_nodes w"
proof -
  from assms obtain idx num di u where f: "node_index info = Some idx" "num_nodes info = Some num"
    "idx < num" "driver_info info = Some di" "info_url di = Some u"
    by (auto simp: AddToCompositeArgs_def split: option.splits if_splits)
  show ?thesis
  proof (cases "find_args (nodes w) (c_str u) idx num (composite_args w) 0")
    case (Inl e)
    with assms f show ?thesis by (simp add: AddToCompositeArgs_def)
  next
    case (Inr r)
    show ?thesis
    proof (cases r)
      case None
      with Inr assms f show ?thesis
        by (auto simp: AddToCompositeArgs_def nth_append)
    next
      case (Some j)
      with Inr assms f have "i = j" "w1 = w" by (auto simp: AddToCompositeArgs_def)
      moreover from find_args_Some [of "nodes w" "c_str u" idx num "composite_args w" 0 j] Inr Some
      have "j < length (composite_args w)" "length (snd (composite_args w ! j)) = num" by auto
      ultimately show ?thesis using f by simp
    qed
  qed
qed

lemma collect_parents_None:
  "(\<exists>wp\<in>set slots. expired h wp) \<Longrightarrow> collect_parents h slots ps = None"
  by (induction slots arbitrary: ps) (auto simp: lock_def expired_def split: option.splits)

lemma collect_parents_Some:
  "(\<forall>wp\<in>set slots. \<not> expired h wp) \<Longrightarrow> collect_parents h slots ps = Some (ps @ map the slots)"
  by (induction slots arbitrary: ps) (auto simp: lock_def expired_def split: option.splits)

lemma push_to_parents_live:
  "(\<forall>p\<in>set ps. h p \<noteq> None) \<Longrightarrow>
   \<exists>h'. push_to_parents c ps h = Inr h' \<and>
     (\<forall>x. h' x = (case h x of
                     None \<Rightarrow> None
                   | Some xn \<Rightarrow> Some (xn\<lparr>children := children xn @ replicate (count_list ps x) c\<rparr>)))"
proof (induction ps arbitrary: h)
  case Nil
  then show ?case by (auto split: option.splits)
next
  case (Cons p ps)
  from Cons.prems obtain pn where pn: "h p = Some pn" by auto
  let ?h1 = "h(p \<mapsto> pn\<lparr>children := children pn @ [c]\<rparr>)"
  have "\<forall>q\<in>set ps. ?h1 q \<noteq> None" using Cons.prems by simp
  from Cons.IH [OF this] obtain h' where h': "push_to_parents c ps ?h1 = Inr h'"
    "\<forall>x. h' x = (case ?h1 x of
                     None \<Rightarrow> None
                   | Some xn \<Rightarrow> Some (xn\<lparr>children := children xn @ replicate (count_list ps x) c\<rparr>))"
    by blast
  have "\<forall>x. h' x = (case h x of
                     None \<Rightarrow> None
                   | Some xn \<Rightarrow> Some (xn\<lparr>children := children xn @ replicate (count_list (p # ps) x) c\<rparr>))"
  proof
    fix x
    show "h' x = (case h x of
                     None \<Rightarrow> None
                   | Some xn \<Rightarrow> Some (xn\<lparr>children := children xn @ replicate (count_list (p # ps) x) c\<rparr>))"
      using h'(2) [rule_format, of x] pn
      by (cases "x = p") (auto split: option.splits simp: replicate_append_same)
  qed
  with h'(1) pn show ?case by simp
qed

lemma new_Node_live:
  "(\<forall>p\<in>set ps. h p \<noteq> None) \<Longrightarrow>
   \<exists>n. new_Node h nm ps b = Inr n \<and> name n = nm \<and> parents n = ps \<and> children n = []"
  by (cases ps) (auto simp: new_Node_def PrimaryParent_def Let_def split: option.splits)

text \<open>
  Claim C2.  Let CreateCompositeNode be called for a live node whose composite info passes
  AddToCompositeArgs, which selects the pending set at position \<open>i\<close>.  After the node's
  weak reference is stored in its slot: if some other slot is unresolved, the call returns
  ZX_ERR_NEXT, the pending set stays at position \<open>i\<close> with the node stored, and nothing
  else changes (the node is not orphaned, no node is created); if every other slot
  resolves, the pending set is erased and exactly one node is created, named "composite",
  whose parent list is the slot nodes in slot order and which is appended to the children
  of each of them (once per slot that holds the parent).
\<close>

theorem CreateCompositeNode_wait_then_create:
  assumes live: "nodes w node \<noteq> None"
    and add: "AddToCompositeArgs info w = Inr (i, w1)"
    and idx: "node_index info = Some idx"
    and fresh: "nodes w (next_node w) = None"
  shows
   "((\<exists>j<length (snd (composite_args w1 ! i)). j \<noteq> idx \<and>
         expired (nodes w) (snd (composite_args w1 ! i) ! j)) \<longrightarrow>
       CreateCompositeNode node info w =
         Inr (Inl ZX_ERR_NEXT,
              w1\<lparr>composite_args := (composite_args w1)
                  [i := (fst (composite_args w1 ! i),
                         (snd (composite_args w1 ! i))[idx := Some node])]\<rparr>))
  \<and> ((\<forall>j<length (snd (composite_args w1 ! i)). j \<noteq> idx \<longrightarrow>
         \<not> expired (nodes w) (snd (composite_args w1 ! i) ! j)) \<longrightarrow>
       (\<exists>w' comp. CreateCompositeNode node info w = Inr (Inr (next_node w), w') \<and>
          composite_args w' = take i (composite_args w1) @ drop (Suc i) (composite_args w1) \<and>
          orphaned_nodes w' = orphaned_nodes w \<and>
          next_node w' = Suc (next_node w) \<and>
          nodes w' (next_node w) = Some comp \<and> name comp = ''composite'' \<and>
          parents comp = map the ((snd (composite_args w1 ! i))[idx := Some node]) \<and>
          children comp = [] \<and>
          (\<forall>x. x \<noteq> next_node w \<longrightarrow>
             nodes w' x = (case nodes w x of
                 None \<Rightarrow> None
               | Some xn \<Rightarrow> Some (xn\<lparr>children := children xn @
                              replicate (count_list (parents comp) x) (next_node w)\<rparr>)))))"
proof -
  let ?ca = "composite_args w1"
  let ?slots = "snd (?ca ! i)"
  let ?slots' = "?slots[idx := Some node]"
  let ?w2 = "w1\<lparr>composite_args := ?ca[i := (fst (?ca ! i), ?slots')]\<rparr>"
  let ?c = "next_node w"
  from AddToCompositeArgs_ok [OF add] idx obtain num where ok:
    "idx < num" "i < length ?ca" "length ?slots = num" "nodes w1 = nodes w"
    "next_node w1 = next_node w" "orphaned_nodes w1 = orphaned_nodes w"
    by auto
  have own: "\<not> expired (nodes w) (Some node)" using live by (simp add: expired_def)
  have unfold: "CreateCompositeNode node info w =
      (case collect_parents (nodes w) ?slots' [] of
         None \<Rightarrow> Inr (Inl ZX_ERR_NEXT, ?w2)
       | Some ps \<Rightarrow>
          (let w3 = ?w2\<lparr>composite_args := take i ?ca @ drop (Suc i) ?ca\<rparr> in
           case new_Node (nodes w3) ''composite'' ps True of
             Inl f \<Rightarrow> Inl f
           | Inr composite \<Rightarrow>
              (let c = next_node w3 in
               case AddToParents c ((nodes w3)(c \<mapsto> composite)) of
                 Inl f \<Rightarrow> Inl f
               | Inr h \<Rightarrow> Inr (Inr c, w3\<lparr>nodes := h, next_node := Suc c\<rparr>))))"
    by (simp add: CreateCompositeNode_def add idx Let_def ok(4))
  have wait: "(\<exists>j<length ?slots. j \<noteq> idx \<and> expired (nodes w) (?slots ! j)) \<longrightarrow>
       CreateCompositeNode node info w = Inr (Inl ZX_ERR_NEXT, ?w2)"
  proof
    assume "\<exists>j<length ?slots. j \<noteq> idx \<and> expired (nodes w) (?slots ! j)"
    then obtain j where j: "j < length ?slots" "j \<noteq> idx" "expired (nodes w) (?slots ! j)"
      by blast
    have "j < length ?slots'" using j(1) by simp
    then have "?slots' ! j \<in> set ?slots'" by (rule nth_mem)
    moreover have "?slots' ! j = ?slots ! j" using j(2) by simp
    ultimately have "\<exists>wp\<in>set ?slots'. expired (nodes w) wp" using j(3) by metis
    from collect_parents_None [OF this] show
      "CreateCompositeNode node info w = Inr (Inl ZX_ERR_NEXT, ?w2)"
      by (simp add: unfold)
  qed
  have create: "(\<forall>j<length ?slots. j \<noteq> idx \<longrightarrow> \<not> expired (nodes w) (?slots ! j)) \<longrightarrow>
       (\<exists>w' comp. CreateCompositeNode node info w = Inr (Inr ?c, w') \<and>
          composite_args w' = take i ?ca @ drop (Suc i) ?ca \<and>
          orphaned_nodes w' = orphaned_nodes w \<and>
          next_node w' = Suc ?c \<and>
          nodes w' ?c = Some comp \<and> name comp = ''composite'' \<and>
          parents comp = map the ?slots' \<and> children comp = [] \<and>
          (\<forall>x. x \<noteq> ?c \<longrightarrow>
             nodes w' x = (case nodes w x of
                 None \<Rightarrow> None
               | Some xn \<Rightarrow> Some (xn\<lparr>children := children xn @
                              replicate (count_list (parents comp) x) ?c\<rparr>))))"
  proof
    assume all: "\<forall>j<length ?slots. j \<noteq> idx \<longrightarrow> \<not> expired (nodes w) (?slots ! j)"
    have res: "\<forall>wp\<in>set ?slots'. \<not> expired (nodes w) wp"
    proof
      fix wp assume "wp \<in> set ?slots'"
      then obtain j where j: "j < length ?slots" "wp = ?slots' ! j"
        by (auto simp: in_set_conv_nth)
      show "\<not> expired (nodes w) wp"
      proof (cases "j = idx")
        case True
        with j own show ?thesis by simp
      next
        case False
        with j all show ?thesis by simp
      qed
    qed
    let ?ps = "map the ?slots'"
    have cp: "collect_parents (nodes w) ?slots' [] = Some ?ps"
      using collect_parents_Some [OF res, of "[]"] by simp
    have ps_live: "\<forall>p\<in>set ?ps. nodes w p \<noteq> None"
      using res by (auto simp: expired_def split: option.splits)
    from new_Node_live [OF ps_live, of "''composite''" True] obtain comp where
      comp: "new_Node (nodes w) ''composite'' ?ps True = Inr comp" "name comp = ''composite''"
        "parents comp = ?ps" "children comp = []"
      by blast
    let ?h = "(nodes w)(?c \<mapsto> comp)"
    have "\<forall>p\<in>set ?ps. ?h p \<noteq> None" using ps_live by simp
    from push_to_parents_live [OF this, of ?c] obtain h' where
      h': "push_to_parents ?c ?ps ?h = Inr h'"
          "\<forall>x. h' x = (case ?h x of
                     None \<Rightarrow> None
                   | Some xn \<Rightarrow> Some (xn\<lparr>children := children xn @ replicate (count_list ?ps x) ?c\<rparr>))"
      by blast
    have atp: "AddToParents ?c ?h = Inr h'"
      by (simp add: AddToParents_def comp(3) h'(1))
    have notin: "?c \<notin> set ?ps" using ps_live fresh by auto
    have hc: "h' ?c = Some comp"
      using h'(2) [rule_format, of ?c] notin by (simp add: comp(4) count_list_0_iff)
    have hx: "\<forall>x. x \<noteq> ?c \<longrightarrow> h' x = (case nodes w x of
                 None \<Rightarrow> None
               | Some xn \<Rightarrow> Some (xn\<lparr>children := children xn @
                              replicate (count_list (parents comp) x) ?c\<rparr>))"
    proof (intro allI impI)
      fix x assume "x \<noteq> ?c"
      then show "h' x = (case nodes w x of
                 None \<Rightarrow> None
               | Some xn \<Rightarrow> Some (xn\<lparr>children := children xn @
                              replicate (count_list (parents comp) x) ?c\<rparr>))"
        using h'(2) [rule_format, of x] unfolding comp(3) by simp
    qed
    let ?w' = "w1\<lparr>composite_args := take i ?ca @ drop (Suc i) ?ca, nodes := h',
                   next_node := Suc ?c\<rparr>"
    have run: "CreateCompositeNode node info w = Inr (Inr ?c, ?w')"
      by (simp add: unfold cp Let_def ok(4,5) comp(1) atp)
    show "\<exists>w' comp. CreateCompositeNode node info w = Inr (Inr ?c, w') \<and>
          composite_args w' = take i ?ca @ drop (Suc i) ?ca \<and>
          orphaned_nodes w' = orphaned_nodes w \<and>
          next_node w' = Suc ?c \<and>
          nodes w' ?c = Some comp \<and> name comp = ''composite'' \<and>
          parents comp = map the ?slots' \<and> children comp = [] \<and>
          (\<forall>x. x \<noteq> ?c \<longrightarrow>
             nodes w' x = (case nodes w x of
                 None \<Rightarrow> None
               | Some xn \<Rightarrow> Some (xn\<lparr>children := children xn @
                              replicate (count_list (parents comp) x) ?c\<rparr>)))"
      apply (rule exI [of _ ?w'], rule exI [of _ comp])
      apply (intro conjI)
              apply (rule run)
             apply simp
            apply (simp add: ok(6))
           apply simp
          apply (simp add: hc)
         apply (rule comp(2))
        apply (rule comp(3))
       apply (rule comp(4))
      using hx apply simp
      done
  qed
  from wait create show ?thesis by (rule conjI)
qed

theorem CreateCompositeNode_wait_then_create_witness:
  "CreateCompositeNode 1 (ex_info 0) ex_two = Inr (Inl ZX_ERR_NEXT, ex_two_waiting)
 \<and> (\<exists>w' comp. CreateCompositeNode 2 (ex_info 1) ex_two_waiting = Inr (Inr 3, w') \<and>
        composite_args w' = [] \<and> nodes w' 3 = Some comp \<and> name comp = ''composite'' \<and>
        parents comp = [1, 2] \<and>
        nodes w' 1 = Some (mk_node ''a'' [0] [3]) \<and> nodes w' 2 = Some (mk_node ''b'' [0] [3]) \<and>
        nodes w' 0 = Some (mk_node ''root'' [] [1, 2]))
 \<and> (\<exists>w'. CreateCompositeNode 2 (ex_info_nul 1) ex_two_waiting = Inr (Inr 3, w') \<and>
        composite_args w' = [])"
proof -
  note ex = ex_two_def ex_two_waiting_def ex_info_def mk_runner_def c_str_def
  have live1: "nodes ex_two 1 \<noteq> None" by (simp add: ex)
  have add1: "AddToCompositeArgs (ex_info 0) ex_two
      = Inr (0, ex_two\<lparr>composite_args := [(''X'', [None, None])]\<rparr>)"
    by (simp add: AddToCompositeArgs_def ex numeral_2_eq_2)
  have idx1: "node_index (ex_info 0) = Some 0" by (simp add: ex)
  have fresh1: "nodes ex_two (next_node ex_two) = None" by (simp add: ex)
  have "\<exists>j<length (snd (composite_args (ex_two\<lparr>composite_args := [(''X'', [None, None])]\<rparr>) ! 0)).
          j \<noteq> 0 \<and> expired (nodes ex_two)
            (snd (composite_args (ex_two\<lparr>composite_args := [(''X'', [None, None])]\<rparr>) ! 0) ! j)"
    by (rule exI [of _ 1]) (simp add: expired_def)
  from CreateCompositeNode_wait_then_create [OF live1 add1 idx1 fresh1, THEN conjunct1,
         rule_format, OF this]
  have w1: "CreateCompositeNode 1 (ex_info 0) ex_two = Inr (Inl ZX_ERR_NEXT, ex_two_waiting)"
    by (simp add: ex)
  have live2: "nodes ex_two_waiting 2 \<noteq> None" by (simp add: ex)
  have add2: "AddToCompositeArgs (ex_info 1) ex_two_waiting = Inr (0, ex_two_waiting)"
    by (simp add: AddToCompositeArgs_def ex expired_def)
  have idx2: "node_index (ex_info 1) = Some 1" by (simp add: ex)
  have fresh2: "nodes ex_two_waiting (next_node ex_two_waiting) = None" by (simp add: ex)
  have all2: "\<forall>j<length (snd (composite_args ex_two_waiting ! 0)). j \<noteq> 1 \<longrightarrow>
          \<not> expired (nodes ex_two_waiting) (snd (composite_args ex_two_waiting ! 0) ! j)"
    by (simp add: ex expired_def less_Suc_eq)
  from CreateCompositeNode_wait_then_create [OF live2 add2 idx2 fresh2, THEN conjunct2,
         THEN mp, OF all2]
  obtain w' comp where r: "CreateCompositeNode 2 (ex_info 1) ex_two_waiting
        = Inr (Inr (next_node ex_two_waiting), w')"
      "composite_args w' = take 0 (composite_args ex_two_waiting) @
                           drop (Suc 0) (composite_args ex_two_waiting)"
      "nodes w' (next_node ex_two_waiting) = Some comp" "name comp = ''composite''"
      "parents comp = map the ((snd (composite_args ex_two_waiting ! 0))[1 := Some 2])"
      "\<forall>x. x \<noteq> next_node ex_two_waiting \<longrightarrow>
             nodes w' x = (case nodes ex_two_waiting x of
                 None \<Rightarrow> None
               | Some xn \<Rightarrow> Some (xn\<lparr>children := children xn @
                   replicate (count_list (parents comp) x) (next_node ex_two_waiting)\<rparr>))"
    by blast
  have nn: "next_node ex_two_waiting = 3" by (simp add: ex)
  have ps: "parents comp = [1, 2]" using r(5) by (simp add: ex)
  have c1: "nodes w' 1 = Some (mk_node ''a'' [0] [3])"
    using r(6) [rule_format, of 1, unfolded ps nn] by (simp add: ex mk_node_def)
  have c2: "nodes w' 2 = Some (mk_node ''b'' [0] [3])"
    using r(6) [rule_format, of 2, unfolded ps nn] by (simp add: ex mk_node_def)
  have c0: "nodes w' 0 = Some (mk_node ''root'' [] [1, 2])"
    using r(6) [rule_format, of 0, unfolded ps nn] by (simp add: ex mk_node_def)
  have ca: "composite_args w' = []" using r(2) by (simp add: ex)
  have "CreateCompositeNode 2 (ex_info 1) ex_two_waiting = Inr (Inr 3, w') \<and>
        composite_args w' = [] \<and> nodes w' 3 = Some comp \<and> name comp = ''composite'' \<and>
        parents comp = [1, 2] \<and>
        nodes w' 1 = Some (mk_node ''a'' [0] [3]) \<and> nodes w' 2 = Some (mk_node ''b'' [0] [3]) \<and>
        nodes w' 0 = Some (mk_node ''root'' [] [1, 2])"
    using r(1,3,4) ps c1 c2 c0 ca by (simp add: nn)
  then have w2: "\<exists>w' comp. CreateCompositeNode 2 (ex_info 1) ex_two_waiting = Inr (Inr 3, w') \<and>
        composite_args w' = [] \<and> nodes w' 3 = Some comp \<and> name comp = ''composite'' \<and>
        parents comp = [1, 2] \<and>
        nodes w' 1 = Some (mk_node ''a'' [0] [3]) \<and> nodes w' 2 = Some (mk_node ''b'' [0] [3]) \<and>
        nodes w' 0 = Some (mk_node ''root'' [] [1, 2])"
    by blast
  have add3: "AddToCompositeArgs (ex_info_nul 1) ex_two_waiting = Inr (0, ex_two_waiting)"
    by (simp add: AddToCompositeArgs_def ex ex_info_nul_def expired_def)
  have idx3: "node_index (ex_info_nul 1) = Some 1" by (simp add: ex_info_nul_def)
  from CreateCompositeNode_wait_then_create [OF live2 add3 idx3 fresh2, THEN conjunct2,
         THEN mp, OF all2]
  obtain w3 where r3: "CreateCompositeNode 2 (ex_info_nul 1) ex_two_waiting
        = Inr (Inr (next_node ex_two_waiting), w3)"
      "composite_args w3 = take 0 (composite_args ex_two_waiting) @
                           drop (Suc 0) (composite_args ex_two_waiting)"
    by blast
  have "CreateCompositeNode 2 (ex_info_nul 1) ex_two_waiting = Inr (Inr 3, w3) \<and>
        composite_args w3 = []"
    using r3 by (simp add: nn) (simp add: ex)
  then have w3: "\<exists>w'. CreateCompositeNode 2 (ex_info_nul 1) ex_two_waiting = Inr (Inr 3, w') \<and>
        composite_args w' = []"
    by (rule exI)
  from w1 w2 w3 show ?thesis by (intro conjI)
qed

section \<open>Runs of Remove and the driver components\<close>

lemmas run_defs = owned_def holds_child_def holds_node_def begin_removal_def
  erase_child_def finish_removal_def Node_unbound_def DriverComponent_dtor_def StopDriver_def
  resume_def mk_runner_def mk_node_def eval_nat_numeral

lemma stops_of_append: "stops_of d (a @ b) = stops_of d a + stops_of d b"
proof (induction a)
  case Nil
  then show ?case by simp
next
  case (Cons e a)
  then show ?case by (cases e) auto
qed

lemma driver_rel_trans:
  "driver_rel a j b \<Longrightarrow> driver_rel b k c \<Longrightarrow> driver_rel a (j + k) c"
  by (auto simp: driver_rel_def split: option.splits)

lemma drel_same: "drivers w' = drivers w \<Longrightarrow> drel w [] w'"
  by (simp add: drel_def driver_rel_def split: option.splits)

lemma drel_trans: "drel w a w1 \<Longrightarrow> drel w1 b w2 \<Longrightarrow> drel w (a @ b) w2"
  unfolding drel_def by (auto simp: stops_of_append intro: driver_rel_trans)

lemma drel_Enter: "drel w ev w' \<Longrightarrow> drel w (Enter x # ev) w'"
  by (simp add: drel_def)

lemma drel_Unlink: "drel w ev w' \<Longrightarrow> drel w (Unlink c p # ev) w'"
  by (simp add: drel_def)

lemma drel_stop:
  assumes "drivers w d = Some dc"
  shows "drel w (if stop_in_progress dc then [] else [StopSent d])
           (w\<lparr>drivers := (drivers w)(d \<mapsto> StopDriver dc)\<rparr>)"
  using assms by (auto simp: drel_def driver_rel_def StopDriver_def split: option.splits)

lemma drel_gone:
  assumes "drel w ev w'"
  shows "drel w ev (w'\<lparr>drivers := (drivers w')(d := None)\<rparr>)"
  unfolding drel_def
proof
  fix x
  from assms have "driver_rel (drivers w x) (stops_of x ev) (drivers w' x)"
    by (simp add: drel_def)
  then show "driver_rel (drivers w x) (stops_of x ev)
               (drivers (w'\<lparr>drivers := (drivers w')(d := None)\<rparr>) x)"
    by (auto simp: driver_rel_def split: option.splits)
qed

lemma drel_drivers_eq: "drel w ev w1 \<Longrightarrow> drivers w2 = drivers w1 \<Longrightarrow> drel w ev w2"
  by (simp add: drel_def)

lemma release_drivers:
  "release f x w = Inr w' \<Longrightarrow> drivers w' = drivers w"
  "release_all f cs w = Inr w' \<Longrightarrow> drivers w' = drivers w"
proof (induction f x w and f cs w arbitrary: w' and w' rule: release_release_all.induct)
  case (1 f x w)
  show ?case
  proof (cases "owned w x")
    case True
    with 1(2) show ?thesis by simp
  next
    case False
    show ?thesis
    proof (cases "nodes w x")
      case None
      with False 1(2) show ?thesis by simp
    next
      case (Some n)
      with False 1(2) have
        "release_all f (children n) (w\<lparr>nodes := (nodes w)(x := None)\<rparr>) = Inr w'" by simp
      from 1(1) [OF False Some this] show ?thesis by simp
    qed
  qed
next
  case (2 f w)
  then show ?case by simp
next
  case (3 c cs w)
  then show ?case by simp
next
  case (4 f c cs w)
  from 4(3) obtain w1 where r: "release f c w = Inr w1" by (cases "release f c w") auto
  with 4(3) have ra: "release_all f cs w1 = Inr w'" by simp
  from 4(1) [OF r] 4(2) [OF r ra] show ?case by simp
qed

lemma release_drel: "drel w ev w1 \<Longrightarrow> release f x w1 = Inr w2 \<Longrightarrow> drel w ev w2"
  using release_drivers(1) [of f x w1 w2] by (auto intro: drel_drivers_eq)

text \<open>Every entry into \<open>Remove\<close> is the first event of its trace.\<close>

lemma Remove_Enter:
  assumes "Remove f this w = Inr (w', ev)"
  shows "\<exists>ev'. ev = Enter this # ev'"
proof (cases f)
  case 0
  with assms show ?thesis by simp
next
  case (Suc g)
  with assms show ?thesis
    by (auto split: option.splits sum.splits if_splits)
qed

lemma Remove_drel_aux:
  "(\<forall>this w w' ev. Remove f this w = Inr (w', ev) \<longrightarrow> drel w ev w')
 \<and> (\<forall>this rest w w' ev. remove_children f this rest w = Inr (w', ev) \<longrightarrow> drel w ev w')
 \<and> (\<forall>this ps w w' ev. unlink_parents f this ps w = Inr (w', ev) \<longrightarrow> drel w ev w')"
proof (induction f)
  case 0
  have a: "\<forall>this w w' ev. Remove 0 this w = Inr (w', ev) \<longrightarrow> drel w ev w'" by simp
  have b: "\<forall>this rest w w' ev. remove_children 0 this rest w = Inr (w', ev) \<longrightarrow> drel w ev w'"
  proof (intro allI impI)
    fix this rest w w' ev
    assume "remove_children 0 this rest w = Inr (w', ev)"
    then show "drel w ev w'" by (cases rest) (auto simp: drel_same)
  qed
  have c: "\<forall>this ps w w' ev. unlink_parents 0 this ps w = Inr (w', ev) \<longrightarrow> drel w ev w'"
  proof (intro allI impI)
    fix this ps w w' ev
    assume "unlink_parents 0 this ps w = Inr (w', ev)"
    then show "drel w ev w'" by (cases ps) (auto simp: drel_same)
  qed
  from a b c show ?case by (intro conjI)
next
  case (Suc f)
  then have IH_R: "\<And>this w w' ev. Remove f this w = Inr (w', ev) \<Longrightarrow> drel w ev w'"
    and IH_C: "\<And>this rest w w' ev. remove_children f this rest w = Inr (w', ev) \<Longrightarrow>
                 drel w ev w'"
    and IH_U: "\<And>this ps w w' ev. unlink_parents f this ps w = Inr (w', ev) \<Longrightarrow> drel w ev w'"
    by blast+
  have R: "drel w ev w'" if run: "Remove (Suc f) this w = Inr (w', ev)" for this w w' ev
  proof -
    from run obtain n where n: "nodes w this = Some n" by (auto split: option.splits)
    let ?w1 = "begin_removal this n w"
    from run n obtain w2 ev1 where c: "remove_children f this (children n) ?w1 = Inr (w2, ev1)"
      by (cases "remove_children f this (children n) ?w1") auto
    from run n c obtain n2 where n2: "nodes w2 this = Some n2"
      by (cases "nodes w2 this") auto
    have g1: "drel w [] ?w1" by (rule drel_same) (simp add: begin_removal_def)
    have g12: "drel w ev1 w2" using drel_trans [OF g1 IH_C [OF c]] by simp
    show ?thesis
    proof (cases "children n2 = []")
      case False
      with run n c n2 have "w' = w2" "ev = Enter this # ev1" by auto
      with g12 show ?thesis by (simp add: drel_Enter)
    next
      case True
      show ?thesis
      proof (cases "driver_component n2")
        case (Some d)
        from run n c n2 True Some obtain dc where dc: "drivers w2 d = Some dc"
          by (cases "drivers w2 d") auto
        with run n c n2 True Some have res:
          "w' = w2\<lparr>drivers := (drivers w2)(d \<mapsto> StopDriver dc)\<rparr>"
          "ev = Enter this # ev1 @ (if stop_in_progress dc then [] else [StopSent d])" by auto
        from drel_trans [OF g12 drel_stop [OF dc]] res show ?thesis by (simp add: drel_Enter)
      next
        case None
        from run n c n2 True None obtain w3 ev2 where
          u: "unlink_parents f this (parents n2) w2 = Inr (w3, ev2)"
          by (cases "unlink_parents f this (parents n2) w2") auto
        from run n c n2 True None u obtain n3 where n3: "nodes w3 this = Some n3"
          by (cases "nodes w3 this") auto
        from run n c n2 True None u n3 have rel:
          "release f this (finish_removal this n3 w3) = Inr w'" and ev: "ev = Enter this # ev1 @ ev2"
          by (auto split: sum.splits)
        have g3: "drel w (ev1 @ ev2) w3" by (rule drel_trans [OF g12 IH_U [OF u]])
        have "drel w (ev1 @ ev2) (finish_removal this n3 w3)"
          by (rule drel_drivers_eq [OF g3]) (simp add: finish_removal_def)
        from release_drel [OF this rel] ev show ?thesis by (simp add: drel_Enter)
      qed
    qed
  qed
  have C: "drel w ev w'"
    if run: "remove_children (Suc f) this rest w = Inr (w', ev)" for this rest w w' ev
  proof (cases rest)
    case Nil
    with run show ?thesis by (simp add: drel_same)
  next
    case (Cons c rest0)
    from run Cons obtain w1 ev1 where r: "Remove f c w = Inr (w1, ev1)"
      by (cases "Remove f c w") auto
    from run Cons r obtain n1 where n1: "nodes w1 this = Some n1"
      by (cases "nodes w1 this") auto
    from run Cons r n1 obtain rest' where rs: "resume rest0 (children n1) = Inr rest'"
      by (cases "resume rest0 (children n1)") auto
    from run Cons r n1 rs obtain w2 ev2 where
      c2: "remove_children f this rest' w1 = Inr (w2, ev2)"
      by (cases "remove_children f this rest' w1") auto
    from run Cons r n1 rs c2 have res: "w' = w2" "ev = ev1 @ ev2" by auto
    from drel_trans [OF IH_R [OF r] IH_C [OF c2]] res show ?thesis by simp
  qed
  have U: "drel w ev w'"
    if run: "unlink_parents (Suc f) this ps w = Inr (w', ev)" for this ps w w' ev
  proof (cases ps)
    case Nil
    with run show ?thesis by (simp add: drel_same)
  next
    case (Cons p ps0)
    from run Cons obtain n where n: "nodes w this = Some n"
      by (cases "nodes w this") auto
    from run Cons n obtain pn where pn: "nodes w p = Some pn"
      by (cases "nodes w p") auto
    from run Cons n pn have mem: "this \<in> set (children pn)" by (auto split: if_splits)
    let ?w1 = "erase_child this p pn w"
    have ge: "drel w [] ?w1" by (rule drel_same) (simp add: erase_child_def)
    show ?thesis
    proof (cases "(removal_in_progress pn \<and> remove1 this (children pn) = []) \<or>
                  1 < length (parents n)")
      case True
      from run Cons n pn mem True obtain w2 ev1 where r: "Remove f p ?w1 = Inr (w2, ev1)"
        by (cases "Remove f p ?w1") auto
      from run Cons n pn mem True r obtain n2 where n2: "nodes w2 this = Some n2"
        by (cases "nodes w2 this") auto
      from run Cons n pn mem True r n2 have same: "parents n2 = parents n"
        by (auto split: if_splits)
      from run Cons n pn mem True r n2 same obtain w3 ev2 where
        u: "unlink_parents f this ps0 w2 = Inr (w3, ev2)"
        by (cases "unlink_parents f this ps0 w2") auto
      from run Cons n pn mem True r n2 same u have res:
        "w' = w3" "ev = Unlink this p # ev1 @ ev2"
        by auto
      from drel_trans [OF drel_trans [OF ge IH_R [OF r]] IH_U [OF u]] res
      show ?thesis by (simp add: drel_Unlink)
    next
      case False
      from run Cons n pn mem False obtain w3 ev2 where
        u: "unlink_parents f this ps0 ?w1 = Inr (w3, ev2)"
        by (cases "unlink_parents f this ps0 ?w1") auto
      from run Cons n pn mem False u have res: "w' = w3" "ev = Unlink this p # ev2"
        by auto
      from drel_trans [OF ge IH_U [OF u]] res show ?thesis by (simp add: drel_Unlink)
    qed
  qed
  from R C U show ?case by blast
qed

lemma Remove_drel: "Remove f this w = Inr (w', ev) \<Longrightarrow> drel w ev w'"
  using Remove_drel_aux by blast

lemma DriverComponent_dtor_drel:
  assumes run: "DriverComponent_dtor f d w = Inr (w', ev)"
  shows "drel w ev w'"
proof -
  from run obtain dc where dc: "drivers w d = Some dc"
    by (cases "drivers w d") (auto simp: DriverComponent_dtor_def)
  from run dc obtain n where n: "nodes w (dc_node dc) = Some n"
    by (cases "nodes w (dc_node dc)") (auto simp: DriverComponent_dtor_def)
  let ?w1 = "w\<lparr>nodes := (nodes w)(dc_node dc \<mapsto> n\<lparr>driver_component := None\<rparr>)\<rparr>"
  from run dc n obtain w1 where r: "Remove f (dc_node dc) ?w1 = Inr (w1, ev)"
    and rel: "release f (dc_node dc) (w1\<lparr>drivers := (drivers w1)(d := None)\<rparr>) = Inr w'"
    by (auto simp: DriverComponent_dtor_def split: sum.splits)
  have "drel w [] ?w1" by (rule drel_same) simp
  from drel_trans [OF this Remove_drel [OF r]] have "drel w ev w1" by simp
  from release_drel [OF drel_gone [OF this] rel] show ?thesis .
qed

lemma Node_unbound_drel:
  assumes run: "Node_unbound f x w = Inr (w', ev)"
  shows "drel w ev w'"
proof -
  from run obtain w1 where r: "Remove f x w = Inr (w1, ev)"
    and rel: "release f x (w1\<lparr>node_servers := node_servers w1 - {x}\<rparr>) = Inr w'"
    by (auto simp: Node_unbound_def split: sum.splits if_splits)
  have "drel w ev (w1\<lparr>node_servers := node_servers w1 - {x}\<rparr>)"
    by (rule drel_drivers_eq [OF Remove_drel [OF r]]) simp
  from release_drel [OF this rel] show ?thesis .
qed

lemma run_drel: "run f acts w = Inr (w', ev) \<Longrightarrow> drel w ev w'"
proof (induction acts arbitrary: w w' ev)
  case Nil
  then show ?case by (simp add: drel_same)
next
  case (Cons a acts)
  let ?step = "case a of CallRemove x \<Rightarrow> Remove f x w
                       | DriverStopped d \<Rightarrow> DriverComponent_dtor f d w
                       | NodeUnbound x \<Rightarrow> Node_unbound f x w"
  from Cons.prems obtain w1 e1 where s: "?step = Inr (w1, e1)"
    by (cases ?step) auto
  from Cons.prems s obtain w2 e2 where r: "run f acts w1 = Inr (w2, e2)"
    by (cases "run f acts w1") auto
  from Cons.prems s r have res: "w' = w2" "ev = e1 @ e2" by auto
  have "drel w e1 w1"
    using s by (cases a) (auto intro: Remove_drel DriverComponent_dtor_drel Node_unbound_drel)
  from drel_trans [OF this Cons.IH [OF r]] res show ?case by simp
qed

lemma drel_stops: "drel w ev w' \<Longrightarrow> stops_of d ev \<le> 1"
  by (auto simp: drel_def driver_rel_def dest!: spec [of _ d] split: option.splits)

lemma drel_stops_in_progress:
  "drel w ev w' \<Longrightarrow> drivers w d = Some dc \<Longrightarrow> stop_in_progress dc \<Longrightarrow> stops_of d ev = 0"
  by (auto simp: drel_def driver_rel_def dest!: spec [of _ d] split: option.splits)

lemma ex_teardown_run:
  "\<exists>w'. run 6 [CallRemove 3, CallRemove 3, DriverStopped 0, CallRemove 3, NodeUnbound 3]
           ex_teardown
         = Inr (w', ex_teardown_trace)"
  by (simp add: ex_teardown_def ex_teardown_trace_def run_defs Let_def)

section \<open>Re-entrant removal\<close>

lemmas c3_defs = AddChild_def AddChild_child_def AddToParents_def new_Node_def
  PrimaryParent_def init_runner_def mk_request_def
  CreateCompositeNode_def AddToCompositeArgs_def c3_info_def lock_def expired_def c_str_def
  Let_def

lemma c3_step1_run:
  "AddChild 0 (mk_request (Some ''a'') None None) init_runner = Inr (Inr (), c3_step1)"
  by (simp add: c3_step1_def c3_defs run_defs)

lemma c3_step2_run:
  "AddChild 0 (mk_request (Some ''b'') None None) c3_step1 = Inr (Inr (), c3_step2)"
  by (simp add: c3_step2_def c3_step1_def c3_defs run_defs)

lemma c3_step3_run:
  "nodes c3_step2 1 \<noteq> None \<and>
   CreateCompositeNode 1 (c3_info 0) c3_step2 = Inr (Inl ZX_ERR_NEXT, c3_step3)"
  by (simp add: c3_step3_def c3_step2_def c3_step1_def c3_defs run_defs)

lemma c3_step4_run:
  "nodes c3_step3 2 \<noteq> None \<and>
   CreateCompositeNode 2 (c3_info 1) c3_step3 = Inr (Inr 3, c3_step4)"
  by (simp add: c3_step4_def c3_step3_def c3_step2_def c3_step1_def c3_defs run_defs)

lemma c3_reachable: "reachable c3_step4"
proof -
  have "reachable c3_step1" using reachable.init c3_step1_run by (rule reachable.add_child)
  then have "reachable c3_step2" using c3_step2_run by (rule reachable.add_child)
  then have "reachable c3_step3"
    using c3_step3_run [THEN conjunct1] c3_step3_run [THEN conjunct2]
    by (rule reachable.composite)
  then show ?thesis
    using c3_step4_run [THEN conjunct1] c3_step4_run [THEN conjunct2]
    by (rule reachable.composite)
qed

lemma c3_step4_nodes:
  "nodes c3_step4 0 = Some (mk_node ''root'' [] [1, 2])
 \<and> nodes c3_step4 1 = Some ((mk_node ''a'' [0] [3])\<lparr>controller_ref := True\<rparr>)
 \<and> nodes c3_step4 2 = Some ((mk_node ''b'' [0] [3])\<lparr>controller_ref := True\<rparr>)
 \<and> nodes c3_step4 3 = Some (mk_node ''composite'' [1, 2] [])
 \<and> node_servers c3_step4 = {} \<and> drivers c3_step4 = Map.empty"
  by (simp add: c3_step4_def c3_step3_def c3_step2_def c3_step1_def c3_defs run_defs)

lemma c3_remove_root:
  "run (Suc (Suc (Suc (Suc (Suc (Suc (Suc (Suc (Suc (Suc f)))))))))) [CallRemove 0] c3_step4 = Inl Dangling"
  by (simp add: c3_step4_def c3_step3_def c3_step2_def c3_step1_def c3_defs run_defs)

lemma c3_remove_parent:
  "run (Suc (Suc (Suc (Suc (Suc (Suc (Suc (Suc f)))))))) [CallRemove 1] c3_step4 = Inl Dangling"
  by (simp add: c3_step4_def c3_step3_def c3_step2_def c3_step1_def c3_defs run_defs)

lemma c3_remove_composite:
  "(case Remove (Suc (Suc (Suc (Suc (Suc (Suc f)))))) 3 c3_step4 of
      Inl e \<Rightarrow> False
    | Inr (w', ev) \<Rightarrow>
        ev = [Enter 3, Unlink 3 1, Enter 1, Unlink 1 0, Unlink 3 2, Enter 2, Unlink 2 0] \<and>
        nodes w' 1 = None \<and> nodes w' 2 = None \<and> nodes w' 3 = None)"
  by (simp add: c3_step4_def c3_step3_def c3_step2_def c3_step1_def c3_defs run_defs)

text \<open>
  Claim C3 fails in the code, on the re-entry from a child's completed removal that the
  claim names.  The state is reachable: the root has the children "a" and "b", which the
  driver index matched as the two nodes of a composite driver, so that the composite node 3
  has the parents "a" and "b"; no driver is bound to it.  \<open>Remove\<close> on the root (or on "a")
  calls \<open>Remove\<close> on "a" in the loop over the children (line 392), which calls \<open>Remove\<close> on
  the composite node.  The composite node erases itself from "a" (line 414) and, since "a"
  waits for its removal and has no child left, calls \<open>Remove\<close> on "a" again (line 420).
  This second call completes the removal of "a": it erases "a" from the root, and when it
  ends, its \<open>this_node\<close> was the last \<open>shared_ptr\<close> to "a", so "a" is destroyed.  The
  composite node goes on to "b", and control returns into the first call of \<open>Remove\<close> on
  "a", which is still in its loop over the children: the loop test at line 387 reads the
  children list of a destroyed node.  \<open>Remove\<close> called on the composite node itself runs
  through, and destroys "a", "b" and the composite node on the way.
\<close>

theorem Remove_reentry_use_after_free:
  "reachable c3_step4
 \<and> (nodes c3_step4 0 = Some (mk_node ''root'' [] [1, 2])
    \<and> nodes c3_step4 1 = Some ((mk_node ''a'' [0] [3])\<lparr>controller_ref := True\<rparr>)
    \<and> nodes c3_step4 2 = Some ((mk_node ''b'' [0] [3])\<lparr>controller_ref := True\<rparr>)
    \<and> nodes c3_step4 3 = Some (mk_node ''composite'' [1, 2] [])
    \<and> node_servers c3_step4 = {} \<and> drivers c3_step4 = Map.empty)
 \<and> run (Suc (Suc (Suc (Suc (Suc (Suc (Suc (Suc (Suc (Suc f)))))))))) [CallRemove 0] c3_step4 = Inl Dangling
 \<and> run (Suc (Suc (Suc (Suc (Suc (Suc (Suc (Suc f)))))))) [CallRemove 1] c3_step4 = Inl Dangling
 \<and> (case Remove (Suc (Suc (Suc (Suc (Suc (Suc f)))))) 3 c3_step4 of
      Inl e \<Rightarrow> False
    | Inr (w', ev) \<Rightarrow>
        ev = [Enter 3, Unlink 3 1, Enter 1, Unlink 1 0, Unlink 3 2, Enter 2, Unlink 2 0] \<and>
        nodes w' 1 = None \<and> nodes w' 2 = None \<and> nodes w' 3 = None)"
  by (rule conjI [OF c3_reachable conjI [OF c3_step4_nodes conjI [OF c3_remove_root
        conjI [OF c3_remove_parent c3_remove_composite]]]])

section \<open>The cascade to the parents\<close>

text \<open>One round of the loop at lines 412-422 on a parent that is waiting for its last
  child, or for a composite node: \<open>Remove\<close> runs on the parent in the state after the
  erasure, and the loop goes on from the state that call leaves.\<close>

lemma unlink_step_cascade:
  assumes run: "unlink_parents (Suc f) this (p # ps) w = Inr (w', ev)"
    and n: "nodes w this = Some n" and pn: "nodes w p = Some pn"
    and K: "(removal_in_progress pn \<and> remove1 this (children pn) = []) \<or>
            1 < length (parents n)"
  shows "\<exists>w2 ev1 ev2 n2.
           Remove f p (erase_child this p pn w) = Inr (w2, Enter p # ev1) \<and>
           nodes w2 this = Some n2 \<and> parents n2 = parents n \<and>
           unlink_parents f this ps w2 = Inr (w', ev2) \<and>
           ev = Unlink this p # Enter p # ev1 @ ev2"
proof -
  from run n pn have mem: "this \<in> set (children pn)" by (auto split: if_splits)
  let ?w1 = "erase_child this p pn w"
  from run n pn mem K obtain w2 ev0 where r: "Remove f p ?w1 = Inr (w2, ev0)"
    by (cases "Remove f p ?w1") auto
  from Remove_Enter [OF r] obtain ev1 where ev0: "ev0 = Enter p # ev1" ..
  from run n pn mem K r obtain n2 where n2: "nodes w2 this = Some n2"
    by (cases "nodes w2 this") auto
  from run n pn mem K r n2 have same: "parents n2 = parents n" by (auto split: if_splits)
  from run n pn mem K r n2 same obtain w3 ev2 where
    u: "unlink_parents f this ps w2 = Inr (w3, ev2)"
    by (cases "unlink_parents f this ps w2") auto
  from run n pn mem K r n2 same u have res: "w' = w3" "ev = Unlink this p # ev0 @ ev2"
    by auto
  have "Remove f p ?w1 = Inr (w2, Enter p # ev1) \<and>
        nodes w2 this = Some n2 \<and> parents n2 = parents n \<and>
        unlink_parents f this ps w2 = Inr (w', ev2) \<and>
        ev = Unlink this p # Enter p # ev1 @ ev2"
    using r ev0 n2 same u res by simp
  then show ?thesis by blast
qed

lemma unlink_step_fault:
  assumes "nodes w this = Some n" and "nodes w p = Some pn" and "this \<in> set (children pn)"
    and "(removal_in_progress pn \<and> remove1 this (children pn) = []) \<or>
         1 < length (parents n)"
    and "Remove f p (erase_child this p pn w) = Inl e"
  shows "unlink_parents (Suc f) this (p # ps) w = Inl e"
  using assms by auto

lemma unlink_step_plain:
  assumes run: "unlink_parents (Suc f) this (p # ps) w = Inr (w', ev)"
    and n: "nodes w this = Some n" and pn: "nodes w p = Some pn"
    and K: "\<not> ((removal_in_progress pn \<and> remove1 this (children pn) = []) \<or>
               1 < length (parents n))"
  shows "\<exists>ev2. unlink_parents f this ps (erase_child this p pn w) = Inr (w', ev2) \<and>
               ev = Unlink this p # ev2"
proof -
  from run n pn have mem: "this \<in> set (children pn)" by (auto split: if_splits)
  let ?w1 = "erase_child this p pn w"
  from run n pn mem K obtain w3 ev2 where u: "unlink_parents f this ps ?w1 = Inr (w3, ev2)"
    by (cases "unlink_parents f this ps ?w1") auto
  from run n pn mem K u have "w' = w3" "ev = Unlink this p # ev2" by auto
  with u show ?thesis by simp
qed

text \<open>The whole loop, for a composite node.\<close>

lemma composite_loop:
  "unlink_parents f this ps w = Inr (w', ev) \<Longrightarrow> nodes w this = Some n \<Longrightarrow>
   1 < length (parents n) \<Longrightarrow> q \<in> set ps \<Longrightarrow>
   \<exists>pre post. ev = pre @ Unlink this q # Enter q # post"
proof (induction ps arbitrary: f w n ev)
  case Nil
  then show ?case by simp
next
  case (Cons p ps)
  from Cons.prems(1) obtain g where f: "f = Suc g" by (cases f) auto
  from Cons.prems(1,2) f obtain pn where pn: "nodes w p = Some pn"
    by (cases "nodes w p") auto
  from Cons.prems(3) have K: "(removal_in_progress pn \<and> remove1 this (children pn) = []) \<or>
            1 < length (parents n)" by simp
  from unlink_step_cascade [OF Cons.prems(1) [unfolded f] Cons.prems(2) pn K]
  obtain w2 ev1 ev2 n2 where st: "nodes w2 this = Some n2" "parents n2 = parents n"
    "unlink_parents g this ps w2 = Inr (w', ev2)" "ev = Unlink this p # Enter p # ev1 @ ev2"
    by blast
  show ?case
  proof (cases "q = p")
    case True
    with st(4) have "ev = [] @ Unlink this q # Enter q # (ev1 @ ev2)" by simp
    then show ?thesis by blast
  next
    case False
    with Cons.prems(4) have q: "q \<in> set ps" by simp
    from Cons.prems(3) st(2) have "1 < length (parents n2)" by simp
    from Cons.IH [OF st(3) st(1) this q] obtain pre post where
      "ev2 = pre @ Unlink this q # Enter q # post" by blast
    with st(4) have "ev = (Unlink this p # Enter p # ev1 @ pre) @ Unlink this q # Enter q # post"
      by simp
    then show ?thesis by blast
  qed
qed

lemma Remove_composite:
  assumes run: "Remove f this w = Inr (w', ev)" and n: "nodes w this = Some n"
    and leaf: "children n = []" "driver_component n = None"
    and cn: "1 < length (parents n)" and q: "q \<in> set (parents n)"
  shows "\<exists>pre post. ev = pre @ Unlink this q # Enter q # post"
proof -
  from run obtain g where f: "f = Suc g" by (cases f) auto
  let ?n1 = "n\<lparr>removal_in_progress := True, driver_binder := False\<rparr>"
  let ?w1 = "begin_removal this n w"
  have n1: "nodes ?w1 this = Some ?n1" by (simp add: begin_removal_def)
  from run f n leaf n1 obtain w3 ev2 where
    u: "unlink_parents g this (parents n) ?w1 = Inr (w3, ev2)"
    by (cases "unlink_parents g this (parents n) ?w1") auto
  from run f n leaf n1 u have ev: "ev = Enter this # ev2"
    by (auto split: option.splits sum.splits)
  from cn have "1 < length (parents ?n1)" by simp
  from composite_loop [OF u n1 this q] obtain pre post where
    "ev2 = pre @ Unlink this q # Enter q # post" by blast
  with ev have "ev = (Enter this # pre) @ Unlink this q # Enter q # post" by simp
  then show ?thesis by blast
qed

text \<open>A call of \<open>Remove\<close> on a node without children and without driver, seen from its
  first parent.\<close>

lemma Remove_first_parent:
  assumes run: "Remove f this w = Inr (w', ev)" and n: "nodes w this = Some n"
    and leaf: "children n = []" "driver_component n = None"
    and ps: "parents n = p # ps" and pn: "nodes w p = Some pn" and ne: "p \<noteq> this"
    and K: "(removal_in_progress pn \<and> remove1 this (children pn) = []) \<or> ps \<noteq> []"
  shows "\<exists>rest. ev = Enter this # Unlink this p # Enter p # rest"
proof -
  from run obtain g where f: "f = Suc g" by (cases f) auto
  let ?n1 = "n\<lparr>removal_in_progress := True, driver_binder := False\<rparr>"
  let ?w1 = "begin_removal this n w"
  have n1: "nodes ?w1 this = Some ?n1" by (simp add: begin_removal_def)
  have pn1: "nodes ?w1 p = Some pn" using pn ne by (simp add: begin_removal_def)
  from run f n leaf n1 obtain w3 ev2 where
    u: "unlink_parents g this (parents n) ?w1 = Inr (w3, ev2)"
    by (cases "unlink_parents g this (parents n) ?w1") auto
  from run f n leaf n1 u have ev: "ev = Enter this # ev2"
    by (auto split: option.splits sum.splits)
  from u ps obtain h where g: "g = Suc h" by (cases g) auto
  from u ps g have u': "unlink_parents (Suc h) this (p # ps) ?w1 = Inr (w3, ev2)" by simp
  from K ps have K': "(removal_in_progress pn \<and> remove1 this (children pn) = []) \<or>
            1 < length (parents ?n1)" by (cases ps) auto
  from unlink_step_cascade [OF u' n1 pn1 K'] obtain ev1 ev3 where
    "ev2 = Unlink this p # Enter p # ev1 @ ev3" by blast
  with ev show ?thesis by simp
qed

lemma Remove_waits_for_children:
  assumes "nodes w this = Some n"
    and "remove_children f this (children n) (begin_removal this n w) = Inr (w2, ev1)"
    and "nodes w2 this = Some n2" and "children n2 \<noteq> []"
  shows "Remove (Suc f) this w = Inr (w2, Enter this # ev1)"
  using assms by simp

lemma Remove_child_fault:
  assumes "nodes w this = Some n"
    and "remove_children f this (children n) (begin_removal this n w) = Inl e"
  shows "Remove (Suc f) this w = Inl e"
  using assms by simp

text \<open>
  Claim C4.  Take a node in the loop in which it unlinks itself from its parents (lines
  412-422), at a parent \<open>p\<close>, in any state in which both are alive.

  If \<open>p\<close> is in removal and the erasure of the node leaves it without children, or if the
  node is a composite node (more than one parent), then \<open>Remove\<close> is run on \<open>p\<close>, in the
  state after the erasure: a fault of that call is the fault of the loop, and when the loop
  returns, its trace is the erasure, the entry into \<open>Remove\<close> on \<open>p\<close> with all that this
  call did, and then the rest of the loop, run from the state that the call left.  In any
  other case the loop only erases the node from the children of \<open>p\<close> and goes on.

  Seen from a whole call of \<open>Remove\<close> on a node without children and without a driver:
  if the first parent is in removal and has no other child, or if the node is a composite
  node, a call that returns has first erased the node from that parent and then at once
  entered \<open>Remove\<close> on it; and for a composite node it has done so for each parent in the
  parent list.

  If the node still has children when the loop over its children is done (lines 387-393),
  \<open>Remove\<close> returns the state and the trace of that loop: it sends no \<open>Stop\<close> request,
  erases the node from no parent, and resets no binding (line 397); and a fault of that
  loop is the fault of \<open>Remove\<close>.
\<close>

theorem Remove_cascades_to_parents:
  "(nodes w this = Some n \<and> nodes w p = Some pn \<and> this \<in> set (children pn) \<and>
    ((removal_in_progress pn \<and> remove1 this (children pn) = []) \<or>
     1 < length (parents n)) \<longrightarrow>
      (\<forall>e. Remove f p (erase_child this p pn w) = Inl e \<longrightarrow>
           unlink_parents (Suc f) this (p # ps) w = Inl e) \<and>
      (\<forall>w' ev. unlink_parents (Suc f) this (p # ps) w = Inr (w', ev) \<longrightarrow>
         (\<exists>w2 ev1 ev2.
            Remove f p (erase_child this p pn w) = Inr (w2, Enter p # ev1) \<and>
            unlink_parents f this ps w2 = Inr (w', ev2) \<and>
            ev = Unlink this p # Enter p # ev1 @ ev2)))
 \<and> (nodes w this = Some n \<and> nodes w p = Some pn \<and>
    \<not> ((removal_in_progress pn \<and> remove1 this (children pn) = []) \<or>
        1 < length (parents n)) \<longrightarrow>
      (\<forall>w' ev. unlink_parents (Suc f) this (p # ps) w = Inr (w', ev) \<longrightarrow>
         (\<exists>ev2. unlink_parents f this ps (erase_child this p pn w) = Inr (w', ev2) \<and>
                ev = Unlink this p # ev2)))
 \<and> (nodes w this = Some n \<and> children n = [] \<and> driver_component n = None \<and>
    parents n = p # ps \<and> nodes w p = Some pn \<and> p \<noteq> this \<and>
    ((removal_in_progress pn \<and> remove1 this (children pn) = []) \<or> ps \<noteq> []) \<longrightarrow>
      (\<forall>w' ev. Remove f this w = Inr (w', ev) \<longrightarrow>
         (\<exists>rest. ev = Enter this # Unlink this p # Enter p # rest)))
 \<and> (nodes w this = Some n \<and> children n = [] \<and> driver_component n = None \<and>
    1 < length (parents n) \<longrightarrow>
      (\<forall>w' ev. Remove f this w = Inr (w', ev) \<longrightarrow>
         (\<forall>q\<in>set (parents n). \<exists>pre post. ev = pre @ Unlink this q # Enter q # post)))
 \<and> (nodes w this = Some n \<and>
    remove_children f this (children n) (begin_removal this n w) = Inr (w2, ev1) \<and>
    nodes w2 this = Some n2 \<and> children n2 \<noteq> [] \<longrightarrow>
      Remove (Suc f) this w = Inr (w2, Enter this # ev1))
 \<and> (nodes w this = Some n \<and>
    remove_children f this (children n) (begin_removal this n w) = Inl e \<longrightarrow>
      Remove (Suc f) this w = Inl e)"
proof -
  let ?K = "(removal_in_progress pn \<and> remove1 this (children pn) = []) \<or>
            1 < length (parents n)"
  have a: "nodes w this = Some n \<and> nodes w p = Some pn \<and> this \<in> set (children pn) \<and> ?K \<longrightarrow>
      (\<forall>e. Remove f p (erase_child this p pn w) = Inl e \<longrightarrow>
           unlink_parents (Suc f) this (p # ps) w = Inl e) \<and>
      (\<forall>w' ev. unlink_parents (Suc f) this (p # ps) w = Inr (w', ev) \<longrightarrow>
         (\<exists>w2 ev1 ev2.
            Remove f p (erase_child this p pn w) = Inr (w2, Enter p # ev1) \<and>
            unlink_parents f this ps w2 = Inr (w', ev2) \<and>
            ev = Unlink this p # Enter p # ev1 @ ev2))"
  proof (intro impI)
    assume h: "nodes w this = Some n \<and> nodes w p = Some pn \<and> this \<in> set (children pn) \<and> ?K"
    then have n: "nodes w this = Some n" and pn: "nodes w p = Some pn"
      and mem: "this \<in> set (children pn)" and K: ?K by blast+
    have 1: "\<forall>e. Remove f p (erase_child this p pn w) = Inl e \<longrightarrow>
           unlink_parents (Suc f) this (p # ps) w = Inl e"
      using unlink_step_fault [OF n pn mem K] by blast
    have 2: "\<forall>w' ev. unlink_parents (Suc f) this (p # ps) w = Inr (w', ev) \<longrightarrow>
         (\<exists>w2 ev1 ev2.
            Remove f p (erase_child this p pn w) = Inr (w2, Enter p # ev1) \<and>
            unlink_parents f this ps w2 = Inr (w', ev2) \<and>
            ev = Unlink this p # Enter p # ev1 @ ev2)"
    proof (intro allI impI)
      fix w' ev
      assume "unlink_parents (Suc f) this (p # ps) w = Inr (w', ev)"
      from unlink_step_cascade [OF this n pn K] show
        "\<exists>w2 ev1 ev2.
            Remove f p (erase_child this p pn w) = Inr (w2, Enter p # ev1) \<and>
            unlink_parents f this ps w2 = Inr (w', ev2) \<and>
            ev = Unlink this p # Enter p # ev1 @ ev2" by blast
    qed
    from 1 2 show
      "(\<forall>e. Remove f p (erase_child this p pn w) = Inl e \<longrightarrow>
           unlink_parents (Suc f) this (p # ps) w = Inl e) \<and>
      (\<forall>w' ev. unlink_parents (Suc f) this (p # ps) w = Inr (w', ev) \<longrightarrow>
         (\<exists>w2 ev1 ev2.
            Remove f p (erase_child this p pn w) = Inr (w2, Enter p # ev1) \<and>
            unlink_parents f this ps w2 = Inr (w', ev2) \<and>
            ev = Unlink this p # Enter p # ev1 @ ev2))" by (rule conjI)
  qed
  have b: "nodes w this = Some n \<and> nodes w p = Some pn \<and> \<not> ?K \<longrightarrow>
      (\<forall>w' ev. unlink_parents (Suc f) this (p # ps) w = Inr (w', ev) \<longrightarrow>
         (\<exists>ev2. unlink_parents f this ps (erase_child this p pn w) = Inr (w', ev2) \<and>
                ev = Unlink this p # ev2))"
    using unlink_step_plain [of f this p ps w _ _ n pn] by blast
  have c0: "nodes w this = Some n \<and> children n = [] \<and> driver_component n = None \<and>
    parents n = p # ps \<and> nodes w p = Some pn \<and> p \<noteq> this \<and>
    ((removal_in_progress pn \<and> remove1 this (children pn) = []) \<or> ps \<noteq> []) \<longrightarrow>
      (\<forall>w' ev. Remove f this w = Inr (w', ev) \<longrightarrow>
         (\<exists>rest. ev = Enter this # Unlink this p # Enter p # rest))"
    using Remove_first_parent [of f this w _ _ n p ps pn] by blast
  have c: "nodes w this = Some n \<and> children n = [] \<and> driver_component n = None \<and>
    1 < length (parents n) \<longrightarrow>
      (\<forall>w' ev. Remove f this w = Inr (w', ev) \<longrightarrow>
         (\<forall>q\<in>set (parents n). \<exists>pre post. ev = pre @ Unlink this q # Enter q # post))"
    using Remove_composite [of f this w _ _ n] by blast
  have d: "nodes w this = Some n \<and>
    remove_children f this (children n) (begin_removal this n w) = Inr (w2, ev1) \<and>
    nodes w2 this = Some n2 \<and> children n2 \<noteq> [] \<longrightarrow>
      Remove (Suc f) this w = Inr (w2, Enter this # ev1)"
    using Remove_waits_for_children [of w this n f w2 ev1 n2] by blast
  have e: "nodes w this = Some n \<and>
    remove_children f this (children n) (begin_removal this n w) = Inl e \<longrightarrow>
      Remove (Suc f) this w = Inl e"
    using Remove_child_fault [of w this n f e] by blast
  from a b c0 c d e show ?thesis by (intro conjI)
qed

lemma ex_waiting_loop:
  "\<exists>w'. unlink_parents (Suc 3) 2 [1] ex_waiting = Inr (w', [Unlink 2 1, Enter 1, Unlink 1 0])"
  by (simp add: ex_waiting_def run_defs Let_def)

lemma ex_waiting_lost:
  "Remove 3 1 (erase_child 2 1
      ((mk_node ''a'' [0] [2])\<lparr>removal_in_progress := True, driver_binder := False,
                               node_ref := True\<rparr>)
      (ex_waiting\<lparr>nodes := (nodes ex_waiting)(0 := None)\<rparr>)) = Inl Dangling"
  by (simp add: ex_waiting_def run_defs Let_def)

lemma ex_waiting_run:
  "\<exists>w'. Remove 5 2 ex_waiting = Inr (w', [Enter 2, Unlink 2 1, Enter 1, Unlink 1 0])"
  by (simp add: ex_waiting_def run_defs Let_def)

lemma ex_composite_plain:
  "\<exists>w'. unlink_parents (Suc 0) 1 [0] ex_composite = Inr (w', [Unlink 1 0])"
  by (simp add: ex_composite_def run_defs Let_def)

lemma ex_composite_run:
  "\<exists>w'. Remove 6 3 ex_composite
         = Inr (w', [Enter 3, Unlink 3 1, Enter 1, Unlink 1 0, Unlink 3 2, Enter 2, Unlink 2 0])"
  by (simp add: ex_composite_def run_defs Let_def)

lemma ex_chain_children:
  "\<exists>w2 n2. remove_children 3 1 [2]
              (begin_removal 1 ((mk_node ''a'' [0] [2])\<lparr>node_ref := True\<rparr>) ex_chain)
            = Inr (w2, [Enter 2, StopSent 0]) \<and>
           nodes w2 1 = Some n2 \<and> children n2 = [2]"
  by (simp add: ex_chain_def run_defs Let_def)

theorem Remove_cascades_to_parents_witness:
  "(\<exists>w'. unlink_parents (Suc 3) 2 [1] ex_waiting = Inr (w', [Unlink 2 1, Enter 1, Unlink 1 0]) \<and>
      (\<exists>w2 ev1 ev2.
         Remove 3 1 (erase_child 2 1
            ((mk_node ''a'' [0] [2])\<lparr>removal_in_progress := True, driver_binder := False,
                                     node_ref := True\<rparr>) ex_waiting)
           = Inr (w2, Enter 1 # ev1) \<and>
         unlink_parents 3 2 [] w2 = Inr (w', ev2) \<and>
         [Unlink 2 1, Enter 1, Unlink 1 0] = Unlink 2 1 # Enter 1 # ev1 @ ev2))
 \<and> unlink_parents (Suc 3) 2 [1] (ex_waiting\<lparr>nodes := (nodes ex_waiting)(0 := None)\<rparr>)
      = Inl Dangling
 \<and> (\<exists>w'. unlink_parents (Suc 0) 1 [0] ex_composite = Inr (w', [Unlink 1 0]) \<and>
      (\<exists>ev2. unlink_parents 0 1 [] (erase_child 1 0 (mk_node ''root'' [] [1, 2]) ex_composite)
               = Inr (w', ev2) \<and>
             [Unlink 1 0] = Unlink 1 0 # ev2))
 \<and> (\<exists>w'. Remove 5 2 ex_waiting = Inr (w', [Enter 2, Unlink 2 1, Enter 1, Unlink 1 0]) \<and>
      (\<exists>rest. [Enter 2, Unlink 2 1, Enter 1, Unlink 1 0]
                = Enter 2 # Unlink 2 1 # Enter 1 # rest))
 \<and> (\<exists>w'. Remove 6 3 ex_composite
           = Inr (w', [Enter 3, Unlink 3 1, Enter 1, Unlink 1 0, Unlink 3 2, Enter 2,
                       Unlink 2 0]) \<and>
      (\<forall>q\<in>set [1, 2]. \<exists>pre post.
          [Enter 3, Unlink 3 1, Enter 1, Unlink 1 0, Unlink 3 2, Enter 2, Unlink 2 0]
            = pre @ Unlink 3 q # Enter q # post))
 \<and> (\<exists>w2 n2. Remove (Suc 3) 1 ex_chain = Inr (w2, [Enter 1, Enter 2, StopSent 0]) \<and>
      nodes w2 1 = Some n2 \<and> children n2 = [2])
 \<and> Remove (Suc 0) 1 ex_chain = Inl OutOfFuel"
proof -
  let ?a = "(mk_node ''a'' [0] [2])\<lparr>removal_in_progress := True, driver_binder := False,
                                   node_ref := True\<rparr>"
  let ?leaf = "mk_node ''leaf'' [1] []"
  have n1: "nodes ex_waiting 2 = Some ?leaf \<and> nodes ex_waiting 1 = Some ?a \<and>
            2 \<in> set (children ?a) \<and>
            ((removal_in_progress ?a \<and> remove1 2 (children ?a) = []) \<or>
             1 < length (parents ?leaf))"
    by (simp add: ex_waiting_def run_defs)
  from ex_waiting_loop obtain w1 where
    r1: "unlink_parents (Suc 3) 2 [1] ex_waiting = Inr (w1, [Unlink 2 1, Enter 1, Unlink 1 0])" ..
  from Remove_cascades_to_parents [THEN conjunct1, THEN mp, OF n1, THEN conjunct2,
         THEN spec, THEN spec, THEN mp, OF r1]
  have "\<exists>w2 ev1 ev2. Remove 3 1 (erase_child 2 1 ?a ex_waiting) = Inr (w2, Enter 1 # ev1) \<and>
         unlink_parents 3 2 [] w2 = Inr (w1, ev2) \<and>
         [Unlink 2 1, Enter 1, Unlink 1 0] = Unlink 2 1 # Enter 1 # ev1 @ ev2" .
  with r1 have wa: "\<exists>w'. unlink_parents (Suc 3) 2 [1] ex_waiting
                        = Inr (w', [Unlink 2 1, Enter 1, Unlink 1 0]) \<and>
      (\<exists>w2 ev1 ev2. Remove 3 1 (erase_child 2 1 ?a ex_waiting) = Inr (w2, Enter 1 # ev1) \<and>
         unlink_parents 3 2 [] w2 = Inr (w', ev2) \<and>
         [Unlink 2 1, Enter 1, Unlink 1 0] = Unlink 2 1 # Enter 1 # ev1 @ ev2)"
    by - (rule exI [of _ w1], (intro conjI; assumption))
  let ?lost = "ex_waiting\<lparr>nodes := (nodes ex_waiting)(0 := None)\<rparr>"
  have n2: "nodes ?lost 2 = Some ?leaf \<and> nodes ?lost 1 = Some ?a \<and>
            2 \<in> set (children ?a) \<and>
            ((removal_in_progress ?a \<and> remove1 2 (children ?a) = []) \<or>
             1 < length (parents ?leaf))"
    by (simp add: ex_waiting_def run_defs)
  from Remove_cascades_to_parents [THEN conjunct1, THEN mp, OF n2, THEN conjunct1,
         THEN spec, THEN mp, OF ex_waiting_lost]
  have wb: "unlink_parents (Suc 3) 2 [1] ?lost = Inl Dangling" .
  let ?root = "mk_node ''root'' [] [1, 2]"
  let ?ca = "mk_node ''a'' [0] [3]"
  have n3: "nodes ex_composite 1 = Some ?ca \<and> nodes ex_composite 0 = Some ?root \<and>
            \<not> ((removal_in_progress ?root \<and> remove1 1 (children ?root) = []) \<or>
                1 < length (parents ?ca))"
    by (simp add: ex_composite_def run_defs)
  from ex_composite_plain obtain w3 where
    r3: "unlink_parents (Suc 0) 1 [0] ex_composite = Inr (w3, [Unlink 1 0])" ..
  from Remove_cascades_to_parents [THEN conjunct2, THEN conjunct1, THEN mp, OF n3,
         THEN spec, THEN spec, THEN mp, OF r3]
  have "\<exists>ev2. unlink_parents 0 1 [] (erase_child 1 0 ?root ex_composite) = Inr (w3, ev2) \<and>
              [Unlink 1 0] = Unlink 1 0 # ev2" .
  with r3 have wc: "\<exists>w'. unlink_parents (Suc 0) 1 [0] ex_composite = Inr (w', [Unlink 1 0]) \<and>
      (\<exists>ev2. unlink_parents 0 1 [] (erase_child 1 0 ?root ex_composite) = Inr (w', ev2) \<and>
             [Unlink 1 0] = Unlink 1 0 # ev2)"
    by - (rule exI [of _ w3], (intro conjI; assumption))
  have n7: "nodes ex_waiting 2 = Some ?leaf \<and> children ?leaf = [] \<and>
            driver_component ?leaf = None \<and> parents ?leaf = 1 # [] \<and>
            nodes ex_waiting 1 = Some ?a \<and> (1::nat) \<noteq> 2 \<and>
            ((removal_in_progress ?a \<and> remove1 2 (children ?a) = []) \<or> ([]::nat list) \<noteq> [])"
    by (simp add: ex_waiting_def run_defs)
  from ex_waiting_run obtain w7 where
    r7: "Remove 5 2 ex_waiting = Inr (w7, [Enter 2, Unlink 2 1, Enter 1, Unlink 1 0])" ..
  from Remove_cascades_to_parents [THEN conjunct2, THEN conjunct2, THEN conjunct1, THEN mp,
         OF n7, THEN spec, THEN spec, THEN mp, OF r7]
  have "\<exists>rest. [Enter 2, Unlink 2 1, Enter 1, Unlink 1 0]
                = Enter 2 # Unlink 2 1 # Enter 1 # rest" .
  with r7 have wg: "\<exists>w'. Remove 5 2 ex_waiting
                        = Inr (w', [Enter 2, Unlink 2 1, Enter 1, Unlink 1 0]) \<and>
      (\<exists>rest. [Enter 2, Unlink 2 1, Enter 1, Unlink 1 0]
                = Enter 2 # Unlink 2 1 # Enter 1 # rest)"
    by - (rule exI [of _ w7], (intro conjI; assumption))
  let ?c = "mk_node ''composite'' [1, 2] []"
  let ?tr = "[Enter 3, Unlink 3 1, Enter 1, Unlink 1 0, Unlink 3 2, Enter 2, Unlink 2 0]"
  have n4: "nodes ex_composite 3 = Some ?c \<and> children ?c = [] \<and> driver_component ?c = None \<and>
            1 < length (parents ?c)"
    by (simp add: ex_composite_def run_defs)
  from ex_composite_run obtain w4 where r4: "Remove 6 3 ex_composite = Inr (w4, ?tr)" ..
  from Remove_cascades_to_parents [THEN conjunct2, THEN conjunct2, THEN conjunct2,
         THEN conjunct1, THEN mp, OF n4, THEN spec, THEN spec, THEN mp, OF r4]
  have "\<forall>q\<in>set (parents ?c). \<exists>pre post. ?tr = pre @ Unlink 3 q # Enter q # post" .
  then have "\<forall>q\<in>set [1, 2]. \<exists>pre post. ?tr = pre @ Unlink 3 q # Enter q # post"
    by (simp add: mk_node_def)
  with r4 have wd: "\<exists>w'. Remove 6 3 ex_composite = Inr (w', ?tr) \<and>
      (\<forall>q\<in>set [1, 2]. \<exists>pre post. ?tr = pre @ Unlink 3 q # Enter q # post)"
    by - (rule exI [of _ w4], (intro conjI; assumption))
  let ?b = "(mk_node ''a'' [0] [2])\<lparr>node_ref := True\<rparr>"
  from ex_chain_children obtain w5 n5 where
    r5: "remove_children 3 1 [2] (begin_removal 1 ?b ex_chain) = Inr (w5, [Enter 2, StopSent 0])"
    and k5: "nodes w5 1 = Some n5" "children n5 = [2]" by blast
  have nb: "nodes ex_chain 1 = Some ?b" "children ?b = [2]"
    by (simp_all add: ex_chain_def run_defs)
  from r5 nb k5 have n5: "nodes ex_chain 1 = Some ?b \<and>
      remove_children 3 1 (children ?b) (begin_removal 1 ?b ex_chain)
        = Inr (w5, [Enter 2, StopSent 0]) \<and>
      nodes w5 1 = Some n5 \<and> children n5 \<noteq> []" by simp
  from Remove_cascades_to_parents [THEN conjunct2, THEN conjunct2, THEN conjunct2,
         THEN conjunct2, THEN conjunct1, THEN mp, OF n5]
  have "Remove (Suc 3) 1 ex_chain = Inr (w5, [Enter 1, Enter 2, StopSent 0])" .
  with k5 have we: "\<exists>w2 n2. Remove (Suc 3) 1 ex_chain = Inr (w2, [Enter 1, Enter 2, StopSent 0]) \<and>
      nodes w2 1 = Some n2 \<and> children n2 = [2]" by blast
  have n6: "nodes ex_chain 1 = Some ?b \<and>
      remove_children 0 1 (children ?b) (begin_removal 1 ?b ex_chain) = Inl OutOfFuel"
    by (simp add: ex_chain_def run_defs)
  from Remove_cascades_to_parents [THEN conjunct2, THEN conjunct2, THEN conjunct2,
         THEN conjunct2, THEN conjunct2, THEN mp, OF n6]
  have wf: "Remove (Suc 0) 1 ex_chain = Inl OutOfFuel" .
  from wa wb wc wg wd we wf show ?thesis by (intro conjI)
qed

section \<open>StopDriver sends at most one Stop request\<close>

lemma StopDriver_idem: "StopDriver (StopDriver d) = StopDriver d"
  by (simp add: StopDriver_def)

lemma StopDriver_funpow: "(StopDriver ^^ k) (StopDriver d) = StopDriver d"
  by (induction k) (simp_all add: StopDriver_idem)

text \<open>
  Claim C10.  Once StopDriver has sent a Stop request and set the stop-in-progress flag,
  every later invocation leaves the driver component as it is, whatever the number of
  invocations: the number of Stop requests sent over the channel grows by at most one over
  any run of invocations, and by none when a stop is already in progress.  A driver
  component constructed by Start (no stop in progress, no request sent) is thus asked to
  stop at most once.  The same holds through \<open>Node::Remove\<close>: in every run of \<open>Remove\<close>
  calls, driver-stop completions and teardowns of node servers without undefined behaviour,
  a driver is sent at most one Stop request, and none if its stop was already in progress.
\<close>

theorem StopDriver_at_most_once:
  "(StopDriver ^^ k) (StopDriver d) = StopDriver d
 \<and> stop_in_progress (StopDriver d)
 \<and> stop_requests ((StopDriver ^^ k) d) \<le> Suc (stop_requests d)
 \<and> stop_requests ((StopDriver ^^ k) d)
      = stop_requests d + (if stop_in_progress d \<or> k = 0 then 0 else 1)
 \<and> (\<forall>w' ev. run f acts w = Inr (w', ev) \<longrightarrow>
        stops_of x ev \<le> 1 \<and>
        (\<forall>dc. drivers w x = Some dc \<and> stop_in_progress dc \<longrightarrow> stops_of x ev = 0))"
proof -
  have a: "(StopDriver ^^ k) (StopDriver d) = StopDriver d" by (rule StopDriver_funpow)
  have b: "stop_in_progress (StopDriver d)" by (simp add: StopDriver_def)
  have c: "stop_requests ((StopDriver ^^ k) d)
      = stop_requests d + (if stop_in_progress d \<or> k = 0 then 0 else 1)"
  proof (cases k)
    case 0
    then show ?thesis by simp
  next
    case (Suc j)
    have "(StopDriver ^^ Suc j) d = (StopDriver ^^ j) (StopDriver d)"
      by (simp add: funpow_swap1)
    then show ?thesis using Suc by (simp add: StopDriver_funpow) (simp add: StopDriver_def)
  qed
  from c have d: "stop_requests ((StopDriver ^^ k) d) \<le> Suc (stop_requests d)" by simp
  have e: "\<forall>w' ev. run f acts w = Inr (w', ev) \<longrightarrow>
        stops_of x ev \<le> 1 \<and>
        (\<forall>dc. drivers w x = Some dc \<and> stop_in_progress dc \<longrightarrow> stops_of x ev = 0)"
    using drel_stops [OF run_drel] drel_stops_in_progress [OF run_drel] by blast
  from a b d c e show ?thesis by (intro conjI)
qed

theorem StopDriver_at_most_once_witness:
  "(\<exists>w'. run 6 [CallRemove 3, CallRemove 3, DriverStopped 0, CallRemove 3, NodeUnbound 3]
            ex_teardown
          = Inr (w', ex_teardown_trace))
 \<and> stops_of 0 ex_teardown_trace \<le> 1
 \<and> stops_of 0 ex_teardown_trace = 1"
proof -
  from ex_teardown_run obtain w' where
    r: "run 6 [CallRemove 3, CallRemove 3, DriverStopped 0, CallRemove 3, NodeUnbound 3]
          ex_teardown
          = Inr (w', ex_teardown_trace)" ..
  from StopDriver_at_most_once [of 0 "\<lparr> dc_node = 3, stop_in_progress = False, stop_requests = 0 \<rparr>" 6
         "[CallRemove 3, CallRemove 3, DriverStopped 0, CallRemove 3, NodeUnbound 3]"
         ex_teardown 0] r
  have "stops_of 0 ex_teardown_trace \<le> 1" by blast
  moreover have "stops_of 0 ex_teardown_trace = 1" by (simp add: ex_teardown_trace_def)
  ultimately show ?thesis using r by blast
qed
section \<open>Sibling names\<close>








end
